theory Spec2Isabelle
  imports Main "HOL-Library.Word" "HOL-Library.Signed_Division"
begin

section \<open>Machine integers\<close>

text \<open>
  Go's \<open>int\<close> and \<open>int64\<close> are modelled as 64-bit words (the 64-bit targets, where
  \<open>int\<close> is 64 bits wide): \<open>+\<close>, \<open>-\<close> and \<open>*\<close> wrap around, comparisons are the
  signed ones (\<open><s\<close>, \<open>\<le>s\<close>), and \<open>sint\<close> reads the value. A \<open>byte\<close> is an 8-bit word.
\<close>

type_synonym go_int = "64 word"
type_synonym byte = "8 word"

text \<open>Go's \<open>/\<close> on \<open>int\<close> truncates towards zero (every divisor in this program is 8).\<close>

definition quo :: "go_int \<Rightarrow> go_int \<Rightarrow> go_int" where
  "quo a b = word_of_int (sint a sdiv sint b)"

section \<open>Facts about the integer model\<close>

lemma sint_wi64:
  assumes "- (2 ^ 63) \<le> k" "k < 2 ^ 63"
  shows "sint (word_of_int k :: go_int) = k"
  using assms by (simp add: sint_sbintrunc' signed_take_bit_int_eq_self)

lemma sint_bounds64: "- (2 ^ 63) \<le> sint (a :: go_int)" "sint (a :: go_int) < 2 ^ 63"
  using sint_ge [of a] sint_lt [of a] by simp_all

lemma sint_add64:
  assumes "- (2 ^ 63) \<le> sint a + sint b" "sint a + sint b < 2 ^ 63"
  shows "sint (a + b :: go_int) = sint a + sint b"
proof -
  have "a + b = word_of_int (sint a + sint b)" by simp
  then show ?thesis using sint_wi64 [OF assms] by simp
qed

lemma sint_mult64:
  assumes "- (2 ^ 63) \<le> sint a * sint b" "sint a * sint b < 2 ^ 63"
  shows "sint (a * b :: go_int) = sint a * sint b"
proof -
  have "a * b = word_of_int (sint a * sint b)" by simp
  then show ?thesis using sint_wi64 [OF assms] by simp
qed

lemma sint_sub64:
  assumes "- (2 ^ 63) \<le> sint a - sint b" "sint a - sint b < 2 ^ 63"
  shows "sint (a - b :: go_int) = sint a - sint b"
proof -
  have "a - b = word_of_int (sint a - sint b)" by simp
  then show ?thesis using sint_wi64 [OF assms] by simp
qed

lemma quo_8_nonneg:
  assumes "0 \<le> sint a"
  shows "sint (quo a 8) = sint a div 8"
proof -
  have b: "sint a < 2 ^ 63"
    by (rule sint_bounds64)
  have "sint a sdiv sint (8 :: go_int) = sint a div 8"
    using assms by (simp add: signed_divide_int_def sgn_if)
  moreover have "sint (word_of_int (sint a div 8) :: go_int) = sint a div 8"
    using assms b by (intro sint_wi64) auto
  ultimately show ?thesis
    by (simp add: quo_def)
qed

section \<open>pix.go: Shape and Dims\<close>

type_synonym Shape = go_int

definition shapeUndefined :: Shape where "shapeUndefined = 0"
definition ShapeRGB888 :: Shape where "ShapeRGB888 = 1"
definition ShapeRGBA8888 :: Shape where "ShapeRGBA8888 = 2"
definition ShapeRGB565BE :: Shape where "ShapeRGB565BE = 3"
definition ShapeRGB555 :: Shape where "ShapeRGB555 = 4"
definition ShapeRGB444BE :: Shape where "ShapeRGB444BE = 5"
definition ShapeGrayscale2bit :: Shape where "ShapeGrayscale2bit = 6"
definition ShapeMonochrome :: Shape where "ShapeMonochrome = 7"

lemmas Shape_defs = shapeUndefined_def ShapeRGB888_def ShapeRGBA8888_def ShapeRGB565BE_def
  ShapeRGB555_def ShapeRGB444BE_def ShapeGrayscale2bit_def ShapeMonochrome_def

text \<open>
  \<open>Shape.BitsPerPixel\<close>: a \<open>switch\<close> over the shape; its cases are tried in the order of
  the source and \<open>default\<close> is taken when none matches.
\<close>

definition BitsPerPixel :: "Shape \<Rightarrow> go_int" where
  "BitsPerPixel sh =
     (if sh = ShapeRGBA8888 then 32
      else if sh = ShapeRGB888 then 24
      else if sh = ShapeGrayscale2bit then 2
      else if sh = ShapeMonochrome then 1
      else if sh = ShapeRGB444BE then 12
      else if sh = ShapeRGB555 then 15
      else if sh = ShapeRGB565BE then 16
      else - 1)"

record Dims =
  Width :: go_int
  Height :: go_int
  Stride :: go_int
  Shape :: Shape

text \<open>The errors of the program, one constructor for each \<open>errors.New\<close> and error variable;
  \<open>ErrIO\<close> stands for the errors a source's \<open>ReadAt\<close> returns.\<close>

datatype error =
    ErrEmptyImage
  | ErrBadPixelShape
  | ErrStrideTooSmall
  | ErrNegativeROI
  | ErrROIExceeds
  | ErrEmptyROI
  | ErrInPlaceROI
  | ErrInPlaceShape
  | ErrNotBuffered
  | ErrNilBuffer
  | ErrBufferTooSmall
  | ErrDstTooSmall
  | errShapeMismatch
  | errNilPixelFunc
  | ErrIO nat

text \<open>\<open>Dims.Validate\<close>; \<open>None\<close> is the \<open>nil\<close> error.\<close>

definition Validate :: "Dims \<Rightarrow> error option" where
  "Validate d =
     (let pixbits = BitsPerPixel (Shape d) in
      if Height d \<le>s 0 \<or> Width d \<le>s 0 then Some ErrEmptyImage
      else if pixbits <s 1 then Some ErrBadPixelShape
      else if Stride d <s quo (Width d * pixbits + 7) 8 then Some ErrStrideTooSmall
      else None)"

definition SizeRow :: "Dims \<Rightarrow> go_int" where
  "SizeRow d = quo (Width d * BitsPerPixel (Shape d) + 7) 8"

definition Size :: "Dims \<Rightarrow> go_int" where
  "Size d =
     (if Height d = 0 \<or> Width d = 0 then 0
      else (Height d - 1) * Stride d + SizeRow d)"

section \<open>pix.go: rectangles, slices, images\<close>

text \<open>
  \<open>image.Rectangle\<close> of Go's standard library: two points, \<open>Dx\<close>, \<open>Dy\<close> and \<open>Empty\<close>
  as the library defines them. A \<open>*image.Rectangle\<close> is a \<open>Rectangle option\<close>, \<open>None\<close>
  for \<open>nil\<close>.
\<close>

record Point =
  X :: go_int
  Y :: go_int

record Rectangle =
  Min_pt :: Point
  Max_pt :: Point

definition Dx :: "Rectangle \<Rightarrow> go_int" where
  "Dx r = X (Max_pt r) - X (Min_pt r)"

definition Dy :: "Rectangle \<Rightarrow> go_int" where
  "Dy r = Y (Max_pt r) - Y (Min_pt r)"

definition Rect_Empty :: "Rectangle \<Rightarrow> bool" where
  "Rect_Empty r \<longleftrightarrow> X (Max_pt r) \<le>s X (Min_pt r) \<or> Y (Max_pt r) \<le>s Y (Min_pt r)"

text \<open>
  A non-nil \<open>[]byte\<close> is a view of a backing array: the array's address in the store, the
  offset of the view, its length and its capacity. A \<open>[]byte\<close> that may be \<open>nil\<close> is a
  \<open>slice option\<close>. The store maps an address to the bytes of the array allocated there;
  \<open>make\<close> appends a new array.
\<close>

record slice =
  s_arr :: nat
  s_off :: nat
  s_len :: nat
  s_cap :: nat

type_synonym store = "byte list list"

text \<open>
  An \<open>Image\<close> value as the program observes it during one call: what \<open>Dims()\<close> returns;
  what a call \<open>ReadAt(p, off)\<close> with \<open>len(p) = n\<close> does, as the bytes it stores at the
  start of \<open>p\<close> (their number is the returned count) and the error it returns; and the
  \<open>ImageBuffered\<close> capability: \<open>None\<close> when the value does not implement \<open>ImageBuffered\<close>,
  \<open>Some None\<close> when \<open>Buffer()\<close> returns \<open>nil\<close>, \<open>Some (Some b)\<close> when it returns \<open>b\<close>.
\<close>

record Image =
  Dims_of :: Dims
  ReadAt :: "nat \<Rightarrow> go_int \<Rightarrow> byte list \<times> error option"
  Buffer :: "slice option option"

text \<open>
  \<open>ValidateProcessArgs\<close>. Each early \<open>return\<close> of the source is one branch; the result is
  the triple the function returns.
\<close>

definition ValidateProcessArgs ::
  "slice option \<Rightarrow> Dims \<Rightarrow> Image \<Rightarrow> Rectangle option \<Rightarrow> slice option \<times> Dims \<times> error option" where
  "ValidateProcessArgs dst dstShape src roi =
     (let srcDims = Dims_of src in
      case Validate srcDims of
        Some err \<Rightarrow> (None, srcDims, Some err)
      | None \<Rightarrow>
          (case (case roi of
                   Some r \<Rightarrow>
                     if X (Max_pt r) <s 0 \<or> X (Min_pt r) <s 0 \<or> Y (Min_pt r) <s 0 \<or> Y (Max_pt r) <s 0
                     then Inl ErrNegativeROI
                     else if Width srcDims <s X (Max_pt r) \<or> Height srcDims <s Y (Max_pt r)
                     then Inl ErrROIExceeds
                     else if Rect_Empty r then Inl ErrEmptyROI
                     else Inr (Stride dstShape * Dy r)
                 | None \<Rightarrow> Inr (Stride dstShape * Height dstShape)) of
             Inl err \<Rightarrow> (None, srcDims, Some err)
           | Inr requiredMinDstSize \<Rightarrow>
               (case (case dst of
                        Some d \<Rightarrow> Inr d
                      | None \<Rightarrow>
                          if roi \<noteq> None then Inl ErrInPlaceROI
                          else if Shape dstShape \<noteq> Shape srcDims then Inl ErrInPlaceShape
                          else (case Buffer src of
                                  None \<Rightarrow> Inl ErrNotBuffered
                                | Some None \<Rightarrow> Inl ErrNilBuffer
                                | Some (Some buf) \<Rightarrow>
                                    if int (s_len buf) < sint (Size srcDims)
                                    then Inl ErrBufferTooSmall
                                    else Inr buf)) of
                  Inl err \<Rightarrow> (None, srcDims, Some err)
                | Inr d \<Rightarrow>
                    if int (s_len d) < sint requiredMinDstSize
                    then (Some d, srcDims, Some ErrDstTooSmall)
                    else (Some d, srcDims, None))))"

section \<open>The store and slice operations\<close>

text \<open>
  A Go function that can panic returns an \<open>outcome\<close>: \<open>Panic\<close> for the uncontrolled
  abort (slice bounds out of range, index out of range, negative \<open>make\<close> length),
  \<open>Return v\<close> for an ordinary return of \<open>v\<close>.
\<close>

datatype 'a outcome = Panic | Return 'a

text \<open>
  The slice expression \<open>s[a:b]\<close>: Go requires \<open>0 \<le> a \<le> b \<le> cap(s)\<close> and panics otherwise
  (\<open>None\<close>); the bound is the capacity, not the length.
\<close>

definition reslice :: "slice \<Rightarrow> go_int \<Rightarrow> go_int \<Rightarrow> slice option" where
  "reslice s a b =
     (if 0 \<le> sint a \<and> sint a \<le> sint b \<and> sint b \<le> int (s_cap s)
      then Some \<lparr>s_arr = s_arr s, s_off = s_off s + nat (sint a),
                 s_len = nat (sint b) - nat (sint a), s_cap = s_cap s - nat (sint a)\<rparr>
      else None)"

text \<open>\<open>s[i]\<close> as a value and \<open>s[i] = v\<close>, for an index within the length.\<close>

definition peek :: "store \<Rightarrow> slice \<Rightarrow> nat \<Rightarrow> byte" where
  "peek h s i = (h ! s_arr s) ! (s_off s + i)"

definition poke :: "store \<Rightarrow> slice \<Rightarrow> nat \<Rightarrow> byte \<Rightarrow> store" where
  "poke h s i v = h[s_arr s := (h ! s_arr s)[s_off s + i := v]]"

text \<open>The bytes a slice shows, and the store after the first bytes of a slice are
  overwritten with \<open>bs\<close> (at most \<open>len(s)\<close> of them).\<close>

definition slice_bytes :: "store \<Rightarrow> slice \<Rightarrow> byte list" where
  "slice_bytes h s = take (s_len s) (drop (s_off s) (h ! s_arr s))"

definition write_bytes :: "store \<Rightarrow> slice \<Rightarrow> byte list \<Rightarrow> store" where
  "write_bytes h s bs =
     (let a = h ! s_arr s; bs' = take (s_len s) bs
      in h[s_arr s := take (s_off s) a @ bs' @ drop (s_off s + length bs') a])"

text \<open>\<open>make([]byte, n)\<close>: a new zeroed array with length and capacity \<open>n\<close>; a negative
  \<open>n\<close> panics.\<close>

definition make_bytes :: "store \<Rightarrow> go_int \<Rightarrow> (store \<times> slice) option" where
  "make_bytes h n =
     (if sint n < 0 then None
      else Some (h @ [replicate (nat (sint n)) 0],
                 \<lparr>s_arr = length h, s_off = 0, s_len = nat (sint n), s_cap = nat (sint n)\<rparr>))"

text \<open>A slice is valid in a store when its backing array exists and holds its capacity;
  the capacity of a Go slice is an \<open>int\<close>.\<close>

definition valid_slice :: "store \<Rightarrow> slice \<Rightarrow> bool" where
  "valid_slice h s \<longleftrightarrow>
     s_arr s < length h \<and> s_len s \<le> s_cap s \<and> s_off s + s_cap s \<le> length (h ! s_arr s) \<and>
     s_cap s < 2 ^ 63"

section \<open>filters/point-filter.go\<close>

text \<open>
  A \<open>PointFunc\<close> is any Go function of two slices: it transforms the store and returns
  or panics. A \<open>PointFilter\<close> holds the two shapes and the function, which may be \<open>nil\<close>
  (\<open>None\<close>). The \<open>Ctrls\<close> field plays no part in \<open>Process\<close> and is left out.
\<close>

type_synonym PointFunc = "store \<Rightarrow> slice \<Rightarrow> slice \<Rightarrow> store \<times> unit outcome"

record PointFilter =
  In :: Shape
  Out :: Shape
  Fn :: "PointFunc option"

definition ShapeIO :: "PointFilter \<Rightarrow> Shape \<times> Shape" where
  "ShapeIO f = (Out f, In f)"

text \<open>\<open>pix.Dims{}\<close>, the zero value returned with every error.\<close>

definition zeroDims :: Dims where
  "zeroDims = \<lparr>Width = 0, Height = 0, Stride = 0, Shape = 0\<rparr>"

text \<open>
  The statement \<open>for y := startY; y < endY; y++ { body }\<close>. The body either goes on to the
  next iteration with a new state (\<open>Inl\<close>) or leaves the function (\<open>Inr\<close>, a \<open>return\<close> or
  a panic). \<open>y++\<close> cannot overflow, since \<open>y < endY\<close>.
\<close>

function for_loop :: "go_int \<Rightarrow> go_int \<Rightarrow> (go_int \<Rightarrow> 's \<Rightarrow> 's + 'r) \<Rightarrow> 's \<Rightarrow> 's + 'r" where
  "for_loop y endY body s =
     (if y <s endY
      then (case body y s of Inl s' \<Rightarrow> for_loop (y + 1) endY body s' | Inr r \<Rightarrow> Inr r)
      else Inl s)"
  by pat_completeness auto
termination
proof (relation "measure (\<lambda>(y, endY, body, s). nat (sint endY - sint y))")
  show "wf (measure (\<lambda>(y, endY, body, s). nat (sint endY - sint y)))"
    by simp
next
  fix y endY :: go_int and body :: "go_int \<Rightarrow> 's \<Rightarrow> 's + 'r" and s x2 :: 's
  assume lt: "y <s endY"
  have b: "sint endY < 2 ^ 63" "- (2 ^ 63) \<le> sint y"
    using sint_lt [of endY] sint_ge [of y] by simp_all
  have "sint (y + 1) = sint y + sint (1 :: go_int)"
    using lt b by (intro sint_add64) (simp_all add: word_sless_alt)
  then have "sint (y + 1) = sint y + 1"
    by simp
  with lt show "((y + 1, endY, body, x2), (y, endY, body, s))
      \<in> measure (\<lambda>(y, endY, body, s). nat (sint endY - sint y))"
    by (simp add: word_sless_alt)
qed

declare for_loop.simps [simp del]

text \<open>
  The state of the row loop is the store together with a count of the calls of \<open>Fn\<close> made
  so far (the count is not a variable of the program; it records the calls). A call ends
  with the store, the count, and the outcome: a panic or the returned pair.
\<close>

type_synonym pstate = "store \<times> nat"
type_synonym presult = "store \<times> nat \<times> (Dims \<times> error option) outcome"

text \<open>
  The body of the row loop of \<open>Process\<close> for the row \<open>y\<close>. The source row is a sub-slice
  of the source's buffer when there is one; otherwise \<open>ReadAt\<close> fills the scratch buffer
  \<open>rowBuf\<close>, the count it returns is discarded and only its error is examined. The two
  slice expressions of the call of \<open>Fn\<close> are evaluated left to right.
\<close>

definition Process_row ::
  "PointFunc \<Rightarrow> Image \<Rightarrow> Dims \<Rightarrow> slice option \<Rightarrow> slice \<Rightarrow> go_int \<Rightarrow> slice \<Rightarrow> go_int \<Rightarrow>
   go_int \<Rightarrow> go_int \<Rightarrow> go_int \<Rightarrow> go_int \<Rightarrow> go_int \<Rightarrow> pstate \<Rightarrow> pstate + presult" where
  "Process_row fn src srcDims srcBuf rowBuf srcRowBytes dst outStride inBytesPerPixel
       startX startY endX y st =
     (let (h, n) = st;
          srcRowStart = y * Stride srcDims
      in case (case srcBuf of
                 Some sb \<Rightarrow>
                   (case reslice sb srcRowStart (srcRowStart + srcRowBytes) of
                      None \<Rightarrow> Inr (h, n, Panic)
                    | Some srcRow \<Rightarrow> Inl (h, srcRow))
               | None \<Rightarrow>
                   (let (data, err) = ReadAt src (s_len rowBuf) srcRowStart;
                        h' = write_bytes h rowBuf data
                    in case err of
                         Some e \<Rightarrow> Inr (h', n, Return (zeroDims, Some e))
                       | None \<Rightarrow> Inl (h', rowBuf))) of
           Inr r \<Rightarrow> Inr r
         | Inl (h1, srcRow) \<Rightarrow>
             (let dstY = y - startY;
                  dstRowStart = dstY * outStride;
                  srcStart = startX * inBytesPerPixel;
                  srcEnd = endX * inBytesPerPixel
              in case reslice dst dstRowStart (dstRowStart + outStride) of
                   None \<Rightarrow> Inr (h1, n, Panic)
                 | Some dstRow \<Rightarrow>
                     (case reslice srcRow srcStart srcEnd of
                        None \<Rightarrow> Inr (h1, n, Panic)
                      | Some srcPix \<Rightarrow>
                          (case fn h1 dstRow srcPix of
                             (h2, Panic) \<Rightarrow> Inr (h2, Suc n, Panic)
                           | (h2, Return u) \<Rightarrow> Inl (h2, Suc n)))))"

text \<open>The output \<open>Dims\<close> that \<open>Process\<close> computes before it validates its arguments
  (\<open>dstDims\<close> in the source).\<close>

definition Process_dstDims :: "PointFilter \<Rightarrow> Image \<Rightarrow> Rectangle option \<Rightarrow> Dims" where
  "Process_dstDims f src roi =
     (let (outShape, inShape) = ShapeIO f;
          srcDims = Dims_of src;
          outBytesPerPixel = quo (BitsPerPixel outShape + 7) 8;
          (outWidth, outHeight) =
             (case roi of Some r \<Rightarrow> (Dx r, Dy r) | None \<Rightarrow> (Width srcDims, Height srcDims));
          outStride = outWidth * outBytesPerPixel
      in \<lparr>Width = outWidth, Height = outHeight, Stride = outStride, Shape = outShape\<rparr>)"

text \<open>
  \<open>PointFilter.Process\<close>, started in the store \<open>h\<close>. A destination that is still \<open>nil\<close>
  after a successful validation (there is none) would be sliced as the empty slice.
\<close>

definition Process ::
  "PointFilter \<Rightarrow> store \<Rightarrow> slice option \<Rightarrow> Image \<Rightarrow> Rectangle option \<Rightarrow> presult" where
  "Process f h dst src roi =
     (case Fn f of
        None \<Rightarrow> (h, 0, Return (zeroDims, Some errNilPixelFunc))
      | Some fn \<Rightarrow>
          (let (outShape, inShape) = ShapeIO f;
               srcDims = Dims_of src
           in if Shape srcDims \<noteq> inShape then (h, 0, Return (zeroDims, Some errShapeMismatch))
              else
                (let inBytesPerPixel = quo (BitsPerPixel inShape + 7) 8;
                     dstDims = Process_dstDims f src roi;
                     outStride = Stride dstDims
                 in case ValidateProcessArgs dst dstDims src roi of
                      (dst', _, Some err) \<Rightarrow> (h, 0, Return (zeroDims, Some err))
                    | (dst', _, None) \<Rightarrow>
                        (let dstBuf = (case dst' of Some d \<Rightarrow> d
                                       | None \<Rightarrow> \<lparr>s_arr = 0, s_off = 0, s_len = 0, s_cap = 0\<rparr>);
                             (startX, startY, endX, endY) =
                                (case roi of
                                   Some r \<Rightarrow> (X (Min_pt r), Y (Min_pt r), X (Max_pt r), Y (Max_pt r))
                                 | None \<Rightarrow> (0, 0, Width srcDims, Height srcDims));
                             srcBuf = (case Buffer src of Some b \<Rightarrow> b | None \<Rightarrow> None);
                             srcRowBytes = SizeRow srcDims
                         in case make_bytes h srcRowBytes of
                              None \<Rightarrow> (h, 0, Panic)
                            | Some (h0, rowBuf) \<Rightarrow>
                                (case for_loop startY endY
                                        (Process_row fn src srcDims srcBuf rowBuf srcRowBytes dstBuf
                                           outStride inBytesPerPixel startX startY endX)
                                        (h0, 0) of
                                   Inr r \<Rightarrow> r
                                 | Inl (h', n) \<Rightarrow> (h', n, Return (dstDims, None)))))))"

section \<open>filters/invert.go\<close>

text \<open>
  The function of \<open>NewInvertedPerPixel\<close>: \<open>for i := 0; i < len(src); i++ { dst[i] = 255 -
  src[i] }\<close>. The index \<open>i\<close> stays below \<open>len(src)\<close> and is a natural number here;
  \<open>dst[i]\<close> panics when \<open>i\<close> is not below \<open>len(dst)\<close>.
\<close>

function invert_loop :: "slice \<Rightarrow> slice \<Rightarrow> nat \<Rightarrow> store \<Rightarrow> store \<times> unit outcome" where
  "invert_loop dst src i h =
     (if i < s_len src
      then (if i < s_len dst
            then invert_loop dst src (Suc i) (poke h dst i (255 - peek h src i))
            else (h, Panic))
      else (h, Return ()))"
  by pat_completeness auto
termination
  by (relation "measure (\<lambda>(dst, src, i, h). s_len src - i)") auto

declare invert_loop.simps [simp del]

definition invert_Fn :: PointFunc where
  "invert_Fn h dst src = invert_loop dst src 0 h"

definition NewInvertedPerPixel :: PointFilter where
  "NewInvertedPerPixel = \<lparr>In = ShapeRGB888, Out = ShapeRGB888, Fn = Some invert_Fn\<rparr>"

section \<open>Shape.BitsPerPixel\<close>

lemma BitsPerPixel_range: "BitsPerPixel sh = - 1 \<or> (1 \<le> sint (BitsPerPixel sh) \<and> sint (BitsPerPixel sh) \<le> 32)"
  by (simp add: BitsPerPixel_def)

text \<open>
  C8. \<open>Shape.BitsPerPixel\<close> is a total function with the fixed table 24 for RGB888,
  32 for RGBA8888, 16 for RGB565BE, 15 for RGB555, 12 for RGB444BE, 2 for Grayscale2bit and
  1 for Monochrome; every other shape value, the undefined zero shape included, gets the
  negative value -1. The function has no failing operation, so it cannot panic.
\<close>

theorem BitsPerPixel_table:
  "BitsPerPixel ShapeRGB888 = 24 \<and> BitsPerPixel ShapeRGBA8888 = 32 \<and>
   BitsPerPixel ShapeRGB565BE = 16 \<and> BitsPerPixel ShapeRGB555 = 15 \<and>
   BitsPerPixel ShapeRGB444BE = 12 \<and> BitsPerPixel ShapeGrayscale2bit = 2 \<and>
   BitsPerPixel ShapeMonochrome = 1 \<and>
   (\<forall>sh. sh \<notin> {ShapeRGB888, ShapeRGBA8888, ShapeRGB565BE, ShapeRGB555, ShapeRGB444BE,
                ShapeGrayscale2bit, ShapeMonochrome}
      \<longrightarrow> BitsPerPixel sh = - 1 \<and> BitsPerPixel sh <s 0)"
  by (simp add: BitsPerPixel_def Shape_defs)

theorem BitsPerPixel_table_witness:
  "shapeUndefined \<notin> {ShapeRGB888, ShapeRGBA8888, ShapeRGB565BE, ShapeRGB555, ShapeRGB444BE,
                ShapeGrayscale2bit, ShapeMonochrome}
   \<and> BitsPerPixel shapeUndefined = - 1 \<and> BitsPerPixel shapeUndefined <s 0"
  using BitsPerPixel_table by (simp add: Shape_defs)

section \<open>The row size without overflow\<close>

lemma Validate_None_iff:
  "Validate d = None \<longleftrightarrow>
     0 <s Height d \<and> 0 <s Width d \<and> 1 \<le>s BitsPerPixel (Shape d) \<and>
     SizeRow d \<le>s Stride d"
  by (auto simp: Validate_def SizeRow_def Let_def word_sle_eq word_sless_alt)

lemma SizeRow_no_overflow:
  assumes "0 \<le> sint (Width d)" "0 \<le> sint (BitsPerPixel (Shape d))"
    and "sint (Width d) * sint (BitsPerPixel (Shape d)) + 7 < 2 ^ 63"
  shows "sint (SizeRow d) = (sint (Width d) * sint (BitsPerPixel (Shape d)) + 7) div 8"
proof -
  let ?w = "sint (Width d)" and ?b = "sint (BitsPerPixel (Shape d))"
  have nn: "0 \<le> ?w * ?b" using assms(1,2) by simp
  have m: "sint (Width d * BitsPerPixel (Shape d)) = ?w * ?b"
    using nn assms(3) by (intro sint_mult64) auto
  have a: "sint (Width d * BitsPerPixel (Shape d) + 7) = ?w * ?b + 7"
    using nn assms(3) m sint_add64 [of "Width d * BitsPerPixel (Shape d)" 7] by simp
  show ?thesis
    unfolding SizeRow_def using quo_8_nonneg [of "Width d * BitsPerPixel (Shape d) + 7"] a nn
    by simp
qed

lemma Size_no_overflow:
  assumes v: "Validate d = None"
    and r: "sint (Width d) * sint (BitsPerPixel (Shape d)) + 7 < 2 ^ 63"
    and t: "(sint (Height d) - 1) * sint (Stride d)
        + (sint (Width d) * sint (BitsPerPixel (Shape d)) + 7) div 8 < 2 ^ 63"
  shows "sint (Size d) = (sint (Height d) - 1) * sint (Stride d)
        + (sint (Width d) * sint (BitsPerPixel (Shape d)) + 7) div 8"
proof -
  let ?rb = "(sint (Width d) * sint (BitsPerPixel (Shape d)) + 7) div 8"
  from v have H0: "0 < sint (Height d)" and W0: "0 < sint (Width d)"
    and b1: "1 \<le> sint (BitsPerPixel (Shape d))" and rS: "sint (SizeRow d) \<le> sint (Stride d)"
    by (simp_all add: Validate_None_iff word_sless_alt word_sle_eq)
  have sr: "sint (SizeRow d) = ?rb"
    using W0 b1 r by (intro SizeRow_no_overflow) simp_all
  have "0 \<le> sint (Width d) * sint (BitsPerPixel (Shape d))" using W0 b1 by simp
  then have rb0: "0 \<le> ?rb" by simp
  have S0: "0 \<le> sint (Stride d)" using rS sr rb0 by simp
  have h1: "sint (Height d - 1) = sint (Height d) - 1"
    using H0 sint_bounds64 [of "Height d"] sint_sub64 [of "Height d" 1] by simp
  have p0: "0 \<le> (sint (Height d) - 1) * sint (Stride d)" using H0 S0 by simp
  have m: "sint ((Height d - 1) * Stride d) = (sint (Height d) - 1) * sint (Stride d)"
    using p0 t rb0 sint_mult64 [of "Height d - 1" "Stride d"] by (simp add: h1)
  have a: "sint ((Height d - 1) * Stride d + SizeRow d) = (sint (Height d) - 1) * sint (Stride d) + ?rb"
    using p0 t rb0 sint_add64 [of "(Height d - 1) * Stride d" "SizeRow d"] by (simp add: m sr)
  have "Height d \<noteq> 0" "Width d \<noteq> 0" using H0 W0 by auto
  then show ?thesis by (simp add: Size_def a)
qed

section \<open>Dims.Validate\<close>

text \<open>
  C2, as amended. For every \<open>Dims\<close> value for which \<open>Width * bits + 7\<close> does not overflow
  the 64-bit \<open>int\<close>, \<open>Validate\<close> succeeds if and only if the width and the height are
  positive, the bit depth is at least 1 and, over the integers,
  \<open>Stride * 8 \<ge> Width * bits\<close>: without overflow the ceiling test of the code and the
  product test of the specification agree.
\<close>

theorem Validate_iff_no_overflow:
  assumes "sint (Width d) * sint (BitsPerPixel (Shape d)) + 7 < 2 ^ 63"
  shows "Validate d = None \<longleftrightarrow>
           0 <s Width d \<and> 0 <s Height d \<and> 1 \<le>s BitsPerPixel (Shape d) \<and>
           sint (Width d) * sint (BitsPerPixel (Shape d)) \<le> sint (Stride d) * 8"
proof (cases "0 <s Width d \<and> 1 \<le>s BitsPerPixel (Shape d)")
  case True
  then have w: "0 \<le> sint (Width d)" and b: "0 \<le> sint (BitsPerPixel (Shape d))"
    by (simp_all add: word_sless_alt word_sle_eq)
  have "sint (SizeRow d) = (sint (Width d) * sint (BitsPerPixel (Shape d)) + 7) div 8"
    using SizeRow_no_overflow [OF w b assms] .
  then have "SizeRow d \<le>s Stride d \<longleftrightarrow>
      sint (Width d) * sint (BitsPerPixel (Shape d)) \<le> sint (Stride d) * 8"
    by (simp add: word_sle_eq) linarith
  with True show ?thesis
    by (auto simp: Validate_None_iff)
next
  case False
  then show ?thesis
    by (auto simp: Validate_None_iff)
qed

theorem Validate_iff_no_overflow_witness:
  "sint (Width \<lparr>Width = 2, Height = 2, Stride = 6, Shape = ShapeRGB888\<rparr>)
     * sint (BitsPerPixel (Shape \<lparr>Width = 2, Height = 2, Stride = 6, Shape = ShapeRGB888\<rparr>)) + 7 < 2 ^ 63
   \<and> Validate \<lparr>Width = 2, Height = 2, Stride = 6, Shape = ShapeRGB888\<rparr> = None
   \<and> Validate \<lparr>Width = 2, Height = 2, Stride = 5, Shape = ShapeRGB888\<rparr> = Some ErrStrideTooSmall"
  using Validate_iff_no_overflow [of "\<lparr>Width = 2, Height = 2, Stride = 6, Shape = ShapeRGB888\<rparr>"]
    Validate_iff_no_overflow [of "\<lparr>Width = 2, Height = 2, Stride = 5, Shape = ShapeRGB888\<rparr>"]
  by (simp add: BitsPerPixel_def Shape_defs Validate_def quo_def word_sle_eq word_sless_alt)

text \<open>
  C2 as stated fails where the product wraps around: for an RGB888 image of width
  \<open>2^61 + 2\<close> the 64-bit product \<open>Width * 24\<close> is 48, the row size the code computes is 6,
  and \<open>Validate\<close> accepts the stride \<open>2^61 + 3\<close>, although \<open>Stride * 8 < Width * 24\<close>, both
  over the integers and in 64-bit arithmetic (where \<open>Stride * 8\<close> is 24).
\<close>

theorem Validate_iff_counterexample:
  "Validate \<lparr>Width = 2305843009213693954, Height = 1, Stride = 2305843009213693955,
      Shape = ShapeRGB888\<rparr> = None
   \<and> \<not> (sint (2305843009213693954 :: go_int) * sint (BitsPerPixel ShapeRGB888)
          \<le> sint (2305843009213693955 :: go_int) * 8)
   \<and> \<not> ((2305843009213693954 :: go_int) * BitsPerPixel ShapeRGB888
          \<le>s (2305843009213693955 :: go_int) * 8)"
  by (simp add: BitsPerPixel_def Shape_defs Validate_def quo_def word_sle_eq word_sless_alt)

section \<open>ValidateProcessArgs\<close>

text \<open>
  The size tests of \<open>ValidateProcessArgs\<close> compare a length with the value of an \<open>int64\<close>
  expression. On these values every rejection holds without a side condition.
\<close>

lemma ValidateProcessArgs_rejects_int64:
  assumes
    "(\<exists>r. roi = Some r \<and>
          (Rect_Empty r \<or> X (Min_pt r) <s 0 \<or> Y (Min_pt r) <s 0 \<or> X (Max_pt r) <s 0 \<or>
           Y (Max_pt r) <s 0 \<or> Width (Dims_of src) <s X (Max_pt r) \<or>
           Height (Dims_of src) <s Y (Max_pt r)))
     \<or> (\<exists>b. dst = Some b \<and>
          int (s_len b) < sint (Stride dstShape * (case roi of Some r \<Rightarrow> Dy r | None \<Rightarrow> Height dstShape)))
     \<or> (dst = None \<and>
          (roi \<noteq> None \<or> Shape dstShape \<noteq> Shape (Dims_of src) \<or> Buffer src = None \<or>
           Buffer src = Some None \<or>
           (\<exists>b. Buffer src = Some (Some b) \<and> int (s_len b) < sint (Size (Dims_of src)))))"
  shows "\<exists>e. snd (snd (ValidateProcessArgs dst dstShape src roi)) = Some e"
  using assms
  by (auto simp: ValidateProcessArgs_def Let_def split: option.splits sum.splits if_splits)

lemma Dy_no_overflow:
  assumes "\<not> Y (Min_pt r) <s 0" "\<not> Y (Max_pt r) <s 0"
  shows "sint (Dy r) = sint (Y (Max_pt r)) - sint (Y (Min_pt r))"
proof -
  have "0 \<le> sint (Y (Min_pt r))" "0 \<le> sint (Y (Max_pt r))"
    using assms by (simp_all add: word_sless_alt)
  then show ?thesis
    unfolding Dy_def
    using sint_bounds64 [of "Y (Min_pt r)"] sint_bounds64 [of "Y (Max_pt r)"]
    by (intro sint_sub64) linarith+
qed

text \<open>
  C1, as amended. \<open>ValidateProcessArgs\<close> returns an error when the ROI is given and is
  empty, has a negative coordinate or exceeds the source's width or height; when a
  destination buffer is supplied and is shorter than the product of \<open>dstShape.Stride\<close> and
  the ROI's height (\<open>dstShape.Height\<close> without ROI), provided that this product, taken over
  the integers, is below \<open>2^63\<close>; and when \<open>dst\<close> is nil and the ROI is non-nil, or the shapes
  differ, or the source is not an \<open>ImageBuffered\<close>, or its buffer is nil, or its buffer is
  shorter than the source's total readable size \<open>(Height - 1) * Stride + ceil (Width * bits / 8)\<close>,
  provided that \<open>Width * bits + 7\<close> and this size, taken over the integers, are below \<open>2^63\<close>.
  This holds for a source whose Dims validate, and also for one whose Dims do not (the
  validation error is returned then).
\<close>

theorem ValidateProcessArgs_rejects_no_overflow:
  fixes dstShape :: Dims and src :: Image and roi :: "Rectangle option"
  defines "need \<equiv> sint (Stride dstShape) *
      (case roi of Some r \<Rightarrow> sint (Y (Max_pt r)) - sint (Y (Min_pt r)) | None \<Rightarrow> sint (Height dstShape))"
    and "rowbits \<equiv> sint (Width (Dims_of src)) * sint (BitsPerPixel (Shape (Dims_of src)))"
    and "readable \<equiv> (sint (Height (Dims_of src)) - 1) * sint (Stride (Dims_of src))
      + (sint (Width (Dims_of src)) * sint (BitsPerPixel (Shape (Dims_of src))) + 7) div 8"
  assumes
    "(\<exists>r. roi = Some r \<and>
          (Rect_Empty r \<or> X (Min_pt r) <s 0 \<or> Y (Min_pt r) <s 0 \<or> X (Max_pt r) <s 0 \<or>
           Y (Max_pt r) <s 0 \<or> Width (Dims_of src) <s X (Max_pt r) \<or>
           Height (Dims_of src) <s Y (Max_pt r)))
     \<or> (\<exists>b. dst = Some b \<and> need < 2 ^ 63 \<and> int (s_len b) < need)
     \<or> (dst = None \<and>
          (roi \<noteq> None \<or> Shape dstShape \<noteq> Shape (Dims_of src) \<or> Buffer src = None \<or>
           Buffer src = Some None \<or>
           (\<exists>b. Buffer src = Some (Some b) \<and> rowbits + 7 < 2 ^ 63 \<and> readable < 2 ^ 63 \<and>
                int (s_len b) < readable)))"
  shows "\<exists>e. snd (snd (ValidateProcessArgs dst dstShape src roi)) = Some e"
proof (cases "Validate (Dims_of src)")
  case (Some err)
  then show ?thesis by (simp add: ValidateProcessArgs_def)
next
  case None
  let ?bad = "\<exists>r. roi = Some r \<and>
          (Rect_Empty r \<or> X (Min_pt r) <s 0 \<or> Y (Min_pt r) <s 0 \<or> X (Max_pt r) <s 0 \<or>
           Y (Max_pt r) <s 0 \<or> Width (Dims_of src) <s X (Max_pt r) \<or>
           Height (Dims_of src) <s Y (Max_pt r))"
  let ?h = "case roi of Some r \<Rightarrow> Dy r | None \<Rightarrow> Height dstShape"
  have prod: "sint (Stride dstShape * ?h) = need"
    if "\<not> ?bad" "need < 2 ^ 63" "0 \<le> need"
  proof -
    have "sint ?h = (case roi of Some r \<Rightarrow> sint (Y (Max_pt r)) - sint (Y (Min_pt r))
        | None \<Rightarrow> sint (Height dstShape))"
      using that(1) by (auto split: option.splits intro: Dy_no_overflow)
    then have "sint (Stride dstShape) * sint ?h = need" by (simp add: need_def)
    then show ?thesis using that(2,3) sint_mult64 [of "Stride dstShape" ?h] by simp
  qed
  have size: "sint (Size (Dims_of src)) = readable" if "rowbits + 7 < 2 ^ 63" "readable < 2 ^ 63"
    using Size_no_overflow [OF None] that unfolding rowbits_def readable_def by simp
  show ?thesis
  proof (rule ValidateProcessArgs_rejects_int64)
    show "?bad
     \<or> (\<exists>b. dst = Some b \<and> int (s_len b) < sint (Stride dstShape * ?h))
     \<or> (dst = None \<and>
          (roi \<noteq> None \<or> Shape dstShape \<noteq> Shape (Dims_of src) \<or> Buffer src = None \<or>
           Buffer src = Some None \<or>
           (\<exists>b. Buffer src = Some (Some b) \<and> int (s_len b) < sint (Size (Dims_of src)))))"
      using assms(4) prod size by (cases ?bad) auto
  qed
qed

theorem ValidateProcessArgs_rejects_no_overflow_witness:
  "int (s_len \<lparr>s_arr = 0, s_off = 0, s_len = 11, s_cap = 11\<rparr>)
     < sint (6 :: go_int) * sint (2 :: go_int) \<and>
   (\<exists>e. snd (snd (ValidateProcessArgs (Some \<lparr>s_arr = 0, s_off = 0, s_len = 11, s_cap = 11\<rparr>)
      \<lparr>Width = 2, Height = 2, Stride = 6, Shape = ShapeRGB888\<rparr>
      \<lparr>Dims_of = \<lparr>Width = 2, Height = 2, Stride = 6, Shape = ShapeRGB888\<rparr>,
        ReadAt = (\<lambda>n off. ([], None)), Buffer = None\<rparr>
      None)) = Some e)"
  using ValidateProcessArgs_rejects_no_overflow [of None
      "\<lparr>Dims_of = \<lparr>Width = 2, Height = 2, Stride = 6, Shape = ShapeRGB888\<rparr>,
        ReadAt = (\<lambda>n off. ([], None)), Buffer = None\<rparr>"
      "Some \<lparr>s_arr = 0, s_off = 0, s_len = 11, s_cap = 11\<rparr>"
      "\<lparr>Width = 2, Height = 2, Stride = 6, Shape = ShapeRGB888\<rparr>"]
  by simp

text \<open>
  C1 as stated fails where a size wraps around in \<open>int64\<close>. The Dims
  \<open>{2^56, 256, 3 * 2^56, RGB888}\<close> validate, and \<open>Stride * Height = 3 * 2^64\<close> wraps to 0:
  an empty destination is accepted. For the Dims \<open>{1, 2^32 + 1, 2^32, RGB888}\<close> the total
  readable size \<open>2^64 + 3\<close> wraps to 3: a buffer of 3 bytes is accepted for an in-place call.
\<close>

theorem ValidateProcessArgs_rejects_counterexample:
  "ValidateProcessArgs (Some \<lparr>s_arr = 0, s_off = 0, s_len = 0, s_cap = 0\<rparr>)
      \<lparr>Width = 72057594037927936, Height = 256, Stride = 216172782113783808, Shape = ShapeRGB888\<rparr>
      \<lparr>Dims_of = \<lparr>Width = 72057594037927936, Height = 256, Stride = 216172782113783808,
                   Shape = ShapeRGB888\<rparr>,
        ReadAt = (\<lambda>n off. ([], None)), Buffer = None\<rparr>
      None
    = (Some \<lparr>s_arr = 0, s_off = 0, s_len = 0, s_cap = 0\<rparr>,
       \<lparr>Width = 72057594037927936, Height = 256, Stride = 216172782113783808, Shape = ShapeRGB888\<rparr>,
       None)
   \<and> int (s_len \<lparr>s_arr = 0, s_off = 0, s_len = 0, s_cap = 0\<rparr>)
       < sint (216172782113783808 :: go_int) * sint (256 :: go_int)
   \<and> ValidateProcessArgs None
      \<lparr>Width = 1, Height = 4294967297, Stride = 0, Shape = ShapeRGB888\<rparr>
      \<lparr>Dims_of = \<lparr>Width = 1, Height = 4294967297, Stride = 4294967296, Shape = ShapeRGB888\<rparr>,
        ReadAt = (\<lambda>n off. ([], None)),
        Buffer = Some (Some \<lparr>s_arr = 0, s_off = 0, s_len = 3, s_cap = 3\<rparr>)\<rparr>
      None
    = (Some \<lparr>s_arr = 0, s_off = 0, s_len = 3, s_cap = 3\<rparr>,
       \<lparr>Width = 1, Height = 4294967297, Stride = 4294967296, Shape = ShapeRGB888\<rparr>, None)
   \<and> int (s_len \<lparr>s_arr = 0, s_off = 0, s_len = 3, s_cap = 3\<rparr>)
       < (sint (4294967297 :: go_int) - 1) * sint (4294967296 :: go_int)
         + (sint (1 :: go_int) * sint (BitsPerPixel ShapeRGB888) + 7) div 8"
  by (simp add: ValidateProcessArgs_def Validate_def Size_def SizeRow_def BitsPerPixel_def
      Shape_defs quo_def word_sle_eq word_sless_alt)

text \<open>
  C3. When \<open>ValidateProcessArgs\<close> is called with a nil \<open>dst\<close> and returns without error,
  the buffer it returns is the very slice the source's \<open>Buffer()\<close> returned: the same
  backing array, offset, length and capacity, so neither a copy nor a sub-slice.
\<close>

theorem ValidateProcessArgs_in_place_buffer:
  assumes "ValidateProcessArgs None dstShape src roi = (out, sd, None)"
  shows "\<exists>b. Buffer src = Some (Some b) \<and> out = Some b"
  using assms
  by (auto simp: ValidateProcessArgs_def Let_def split: option.splits sum.splits if_splits)

theorem ValidateProcessArgs_in_place_buffer_witness:
  "ValidateProcessArgs None
      \<lparr>Width = 2, Height = 2, Stride = 6, Shape = ShapeRGB888\<rparr>
      \<lparr>Dims_of = \<lparr>Width = 2, Height = 2, Stride = 6, Shape = ShapeRGB888\<rparr>,
        ReadAt = (\<lambda>n off. ([], None)),
        Buffer = Some (Some \<lparr>s_arr = 0, s_off = 0, s_len = 12, s_cap = 12\<rparr>)\<rparr>
      None
    = (Some \<lparr>s_arr = 0, s_off = 0, s_len = 12, s_cap = 12\<rparr>,
       \<lparr>Width = 2, Height = 2, Stride = 6, Shape = ShapeRGB888\<rparr>, None)
   \<and> (\<exists>b. Buffer \<lparr>Dims_of = \<lparr>Width = 2, Height = 2, Stride = 6, Shape = ShapeRGB888\<rparr>,
              ReadAt = (\<lambda>n off. ([], None)),
              Buffer = Some (Some \<lparr>s_arr = 0, s_off = 0, s_len = 12, s_cap = 12\<rparr>)\<rparr>
            = Some (Some b)
          \<and> Some \<lparr>s_arr = 0, s_off = 0, s_len = 12, s_cap = 12\<rparr> = Some b)"
proof -
  have run: "ValidateProcessArgs None
      \<lparr>Width = 2, Height = 2, Stride = 6, Shape = ShapeRGB888\<rparr>
      \<lparr>Dims_of = \<lparr>Width = 2, Height = 2, Stride = 6, Shape = ShapeRGB888\<rparr>,
        ReadAt = (\<lambda>n off. ([], None)),
        Buffer = Some (Some \<lparr>s_arr = 0, s_off = 0, s_len = 12, s_cap = 12\<rparr>)\<rparr>
      None
    = (Some \<lparr>s_arr = 0, s_off = 0, s_len = 12, s_cap = 12\<rparr>,
       \<lparr>Width = 2, Height = 2, Stride = 6, Shape = ShapeRGB888\<rparr>, None)"
    by (simp add: ValidateProcessArgs_def Validate_def BitsPerPixel_def Shape_defs quo_def
        Size_def SizeRow_def word_sle_eq word_sless_alt)
  from ValidateProcessArgs_in_place_buffer [OF run] run show ?thesis
    by blast
qed

text \<open>
  C9. On every return path of \<open>ValidateProcessArgs\<close>, the successful one and each error
  return, the \<open>srcDims\<close> result is the value \<open>src.Dims()\<close> gave at the start of the call.
\<close>

theorem ValidateProcessArgs_srcDims:
  "fst (snd (ValidateProcessArgs dst dstShape src roi)) = Dims_of src"
  by (simp add: ValidateProcessArgs_def Let_def split: option.splits sum.splits)

section \<open>Words that hold natural numbers\<close>

lemma sint_of_nat64:
  assumes "n < 2 ^ 63"
  shows "sint (of_nat n :: go_int) = int n"
proof -
  have "(of_nat n :: go_int) = word_of_int (int n)" by simp
  moreover have "sint (word_of_int (int n) :: go_int) = int n"
    using assms by (intro sint_wi64) (simp_all add: of_nat_less_numeral_power_cancel_iff [where 'a = int, symmetric] del: of_nat_less_numeral_power_cancel_iff)
  ultimately show ?thesis by simp
qed

lemma of_nat_sint64:
  assumes "0 \<le> sint (w :: go_int)"
  shows "w = of_nat (nat (sint w))" "nat (sint w) < 2 ^ 63"
proof -
  show "w = of_nat (nat (sint w))"
    using assms by simp
  show "nat (sint w) < 2 ^ 63"
    using assms sint_bounds64(2) [of w] by (simp add: nat_less_iff)
qed

lemma sless_of_nat64:
  assumes "a < 2 ^ 63" "b < 2 ^ 63"
  shows "(of_nat a :: go_int) <s of_nat b \<longleftrightarrow> a < b"
  using assms by (simp add: word_sless_alt sint_of_nat64)

lemma reslice_of_nat:
  assumes "a \<le> b" "b \<le> s_cap s" "b < 2 ^ 63"
  shows "reslice s (of_nat a) (of_nat b) =
           Some \<lparr>s_arr = s_arr s, s_off = s_off s + a, s_len = b - a, s_cap = s_cap s - a\<rparr>"
  using assms by (simp add: reslice_def sint_of_nat64)

lemma reslice_of_nat_None:
  assumes "a \<le> b" "s_cap s < b" "b < 2 ^ 63"
  shows "reslice s (of_nat a) (of_nat b) = None"
  using assms by (simp add: reslice_def sint_of_nat64)

lemma for_loop_of_nat:
  assumes "k \<le> y1" "y1 < 2 ^ 63"
  shows "for_loop (of_nat k) (of_nat y1) body s =
           (if k < y1
            then (case body (of_nat k) s of
                    Inl s' \<Rightarrow> for_loop (of_nat (Suc k)) (of_nat y1) body s'
                  | Inr r \<Rightarrow> Inr r)
            else Inl s)"
proof -
  have e: "(of_nat k :: go_int) + 1 = of_nat (Suc k)"
    by simp
  show ?thesis
    using assms by (subst for_loop.simps, unfold e) (simp add: sless_of_nat64)
qed


section \<open>Stores that differ in one range of one array\<close>

text \<open>\<open>frame h h' a lo hi\<close>: every array of \<open>h\<close> is still there in \<open>h'\<close> with its length, and
  with its bytes except for the positions from \<open>lo\<close> up to \<open>hi\<close> of the array \<open>a\<close>.\<close>

definition frame :: "store \<Rightarrow> store \<Rightarrow> nat \<Rightarrow> nat \<Rightarrow> nat \<Rightarrow> bool" where
  "frame h h' a lo hi \<longleftrightarrow>
     length h \<le> length h' \<and>
     (\<forall>b<length h. length (h' ! b) = length (h ! b)) \<and>
     (\<forall>b<length h. \<forall>p<length (h ! b). (b = a \<longrightarrow> p < lo \<or> hi \<le> p) \<longrightarrow> (h' ! b) ! p = (h ! b) ! p)"

lemma length_slice_bytes: "valid_slice h s \<Longrightarrow> length (slice_bytes h s) = s_len s"
  by (auto simp: valid_slice_def slice_bytes_def)

lemma slice_bytes_nth:
  "valid_slice h s \<Longrightarrow> i < s_len s \<Longrightarrow> slice_bytes h s ! i = (h ! s_arr s) ! (s_off s + i)"
  by (auto simp: valid_slice_def slice_bytes_def)

lemma frame_refl: "frame h h a lo hi"
  by (simp add: frame_def)

lemma frame_append: "frame h (h @ xs) a lo hi"
  by (simp add: frame_def nth_append)

lemma frame_widen: "frame h h' a lo hi \<Longrightarrow> lo' \<le> lo \<Longrightarrow> hi \<le> hi' \<Longrightarrow> frame h h' a lo' hi'"
  by (fastforce simp: frame_def)

lemma frameI:
  assumes "length h \<le> length h'"
    and "\<And>b. b < length h \<Longrightarrow> length (h' ! b) = length (h ! b)"
    and "\<And>b p. b < length h \<Longrightarrow> p < length (h ! b) \<Longrightarrow> b = a \<longrightarrow> p < lo \<or> hi \<le> p
          \<Longrightarrow> (h' ! b) ! p = (h ! b) ! p"
  shows "frame h h' a lo hi"
  using assms unfolding frame_def by blast

lemma frame_length: "frame h h' a lo hi \<Longrightarrow> length h \<le> length h'"
  and frame_length_nth: "frame h h' a lo hi \<Longrightarrow> b < length h \<Longrightarrow> length (h' ! b) = length (h ! b)"
  and frame_nth: "frame h h' a lo hi \<Longrightarrow> b < length h \<Longrightarrow> p < length (h ! b)
      \<Longrightarrow> b = a \<longrightarrow> p < lo \<or> hi \<le> p \<Longrightarrow> (h' ! b) ! p = (h ! b) ! p"
  unfolding frame_def by blast+

lemma frame_trans:
  assumes 1: "frame h h1 a lo mid" and 2: "frame h1 h2 a mid hi" and "lo \<le> mid" "mid \<le> hi"
  shows "frame h h2 a lo hi"
proof (rule frameI)
  show "length h \<le> length h2"
    using frame_length [OF 1] frame_length [OF 2] by simp
next
  fix b assume b: "b < length h"
  then have b1: "b < length h1" using frame_length [OF 1] by simp
  show "length (h2 ! b) = length (h ! b)"
    using frame_length_nth [OF 1 b] frame_length_nth [OF 2 b1] by simp
next
  fix b p assume b: "b < length h" and p: "p < length (h ! b)"
    and out: "b = a \<longrightarrow> p < lo \<or> hi \<le> p"
  have b1: "b < length h1" using b frame_length [OF 1] by simp
  have p1: "p < length (h1 ! b)" using p frame_length_nth [OF 1 b] by simp
  have "(h1 ! b) ! p = (h ! b) ! p"
    using out assms(3,4) by (intro frame_nth [OF 1 b p]) auto
  moreover have "(h2 ! b) ! p = (h1 ! b) ! p"
    using out assms(3,4) by (intro frame_nth [OF 2 b1 p1]) auto
  ultimately show "(h2 ! b) ! p = (h ! b) ! p" by simp
qed

lemma frame_other:
  assumes 1: "frame h h1 a lo hi" and 2: "frame h1 h2 c lo' hi'" and c: "length h \<le> c"
  shows "frame h h2 a lo hi"
proof (rule frameI)
  show "length h \<le> length h2"
    using frame_length [OF 1] frame_length [OF 2] by simp
next
  fix b assume b: "b < length h"
  then have b1: "b < length h1" using frame_length [OF 1] by simp
  show "length (h2 ! b) = length (h ! b)"
    using frame_length_nth [OF 1 b] frame_length_nth [OF 2 b1] by simp
next
  fix b p assume b: "b < length h" and p: "p < length (h ! b)"
    and out: "b = a \<longrightarrow> p < lo \<or> hi \<le> p"
  have b1: "b < length h1" using b frame_length [OF 1] by simp
  have p1: "p < length (h1 ! b)" using p frame_length_nth [OF 1 b] by simp
  have "(h1 ! b) ! p = (h ! b) ! p"
    using out by (intro frame_nth [OF 1 b p]) auto
  moreover have "(h2 ! b) ! p = (h1 ! b) ! p"
    using b c by (intro frame_nth [OF 2 b1 p1]) auto
  ultimately show "(h2 ! b) ! p = (h ! b) ! p" by simp
qed

lemma valid_slice_frame: "frame h h' a lo hi \<Longrightarrow> valid_slice h t \<Longrightarrow> valid_slice h' t"
  by (auto simp: frame_def valid_slice_def)

lemma slice_bytes_frame:
  assumes "frame h h' a lo hi" "valid_slice h t"
    and "s_arr t \<noteq> a \<or> s_off t + s_len t \<le> lo \<or> hi \<le> s_off t"
  shows "slice_bytes h' t = slice_bytes h t"
proof (rule nth_equalityI)
  show "length (slice_bytes h' t) = length (slice_bytes h t)"
    using assms(1,2) by (simp add: length_slice_bytes valid_slice_frame)
next
  fix i assume "i < length (slice_bytes h' t)"
  then have i: "i < s_len t"
    using assms(1,2) by (simp add: length_slice_bytes valid_slice_frame)
  have "(h' ! s_arr t) ! (s_off t + i) = (h ! s_arr t) ! (s_off t + i)"
    using assms i unfolding frame_def valid_slice_def by auto
  then show "slice_bytes h' t ! i = slice_bytes h t ! i"
    using assms(1,2) i by (simp add: slice_bytes_nth valid_slice_frame)
qed

lemma write_bytes_frame:
  assumes "valid_slice h s"
  shows "frame h (write_bytes h s bs) (s_arr s) (s_off s) (s_off s + s_len s)"
  using assms unfolding frame_def write_bytes_def valid_slice_def Let_def
  by (auto simp: nth_list_update nth_append)

lemma slice_bytes_write_bytes:
  assumes "valid_slice h s" "s_len s \<le> length bs"
  shows "slice_bytes (write_bytes h s bs) s = take (s_len s) bs"
  using assms unfolding slice_bytes_def write_bytes_def valid_slice_def Let_def
  by simp

section \<open>The inversion loop\<close>

lemma poke_frame:
  assumes "valid_slice h d" "i < s_len d"
  shows "frame h (poke h d i v) (s_arr d) (s_off d + i) (Suc (s_off d + i))"
  using assms unfolding frame_def poke_def valid_slice_def
  by (auto simp: nth_list_update)

lemma poke_nth:
  assumes "valid_slice h d" "i < s_len d"
  shows "(poke h d i v ! s_arr d) ! (s_off d + i) = v"
  using assms unfolding poke_def valid_slice_def by simp

lemma invert_loop_spec:
  assumes "valid_slice h d" "valid_slice h s" "s_len d = s_len s"
    and "s_arr d \<noteq> s_arr s \<or> s_off d \<le> s_off s"
  shows "\<exists>h'. invert_loop d s i h = (h', Return ()) \<and>
           frame h h' (s_arr d) (s_off d + i) (s_off d + s_len s) \<and>
           (\<forall>j. i \<le> j \<and> j < s_len s \<longrightarrow>
              (h' ! s_arr d) ! (s_off d + j) = 255 - (h ! s_arr s) ! (s_off s + j))"
  using assms
proof (induction d s i h rule: invert_loop.induct)
  case (1 d s i h)
  show ?case
  proof (cases "i < s_len s")
    case False
    then show ?thesis
      by (subst invert_loop.simps) (auto simp: frame_refl)
  next
    case True
    let ?v = "255 - peek h s i"
    let ?h1 = "poke h d i ?v"
    have id: "i < s_len d" using True "1.prems"(3) by simp
    have f1: "frame h ?h1 (s_arr d) (s_off d + i) (Suc (s_off d + i))"
      by (rule poke_frame [OF "1.prems"(1) id])
    have v1: "valid_slice ?h1 d" "valid_slice ?h1 s"
      using f1 "1.prems"(1,2) by (auto intro: valid_slice_frame)
    from "1.IH" [OF True id v1 "1.prems"(3,4)]
    obtain h' where run: "invert_loop d s (Suc i) ?h1 = (h', Return ())"
      and f2: "frame ?h1 h' (s_arr d) (s_off d + Suc i) (s_off d + s_len s)"
      and vals: "\<forall>j. Suc i \<le> j \<and> j < s_len s \<longrightarrow>
              (h' ! s_arr d) ! (s_off d + j) = 255 - (?h1 ! s_arr s) ! (s_off s + j)"
      by blast
    have r: "invert_loop d s i h = (h', Return ())"
      using True id run by (subst invert_loop.simps) simp
    have f: "frame h h' (s_arr d) (s_off d + i) (s_off d + s_len s)"
      using frame_trans [OF f1] f2 True by simp
    have ad: "s_arr d < length h" and ld: "s_off d + s_len d \<le> length (h ! s_arr d)"
      and as: "s_arr s < length h" and ls: "s_off s + s_len s \<le> length (h ! s_arr s)"
      using "1.prems"(1,2) unfolding valid_slice_def by auto
    have "(h' ! s_arr d) ! (s_off d + j) = 255 - (h ! s_arr s) ! (s_off s + j)"
      if j: "i \<le> j" "j < s_len s" for j
    proof (cases "j = i")
      case True
      have "(h' ! s_arr d) ! (s_off d + i) = (?h1 ! s_arr d) ! (s_off d + i)"
        using f2 v1(1) id unfolding frame_def valid_slice_def by auto
      then show ?thesis
        using True poke_nth [OF "1.prems"(1) id] by (simp add: peek_def)
    next
      case False
      then have sj: "Suc i \<le> j" using j by simp
      have "(?h1 ! s_arr s) ! (s_off s + j) = (h ! s_arr s) ! (s_off s + j)"
        using f1 as ls j sj "1.prems"(4) unfolding frame_def by auto
      with vals sj j show ?thesis by simp
    qed
    with r f show ?thesis by blast
  qed
qed


section \<open>Invariant rules for the row loop\<close>

lemma for_loop_total:
  assumes "y0 \<le> y1" "y1 < 2 ^ 63" "Inv y0 s0"
    and step: "\<And>k s. y0 \<le> k \<Longrightarrow> k < y1 \<Longrightarrow> Inv k s \<Longrightarrow> \<exists>s'. body (of_nat k) s = Inl s' \<and> Inv (Suc k) s'"
  shows "\<exists>s'. for_loop (of_nat y0) (of_nat y1) body s0 = Inl s' \<and> Inv y1 s'"
proof -
  have "\<forall>s. Inv k s \<longrightarrow> (\<exists>s'. for_loop (of_nat k) (of_nat y1) body s = Inl s' \<and> Inv y1 s')"
    if "y0 \<le> k" "k \<le> y1" for k
    using that(2,1)
  proof (induction k rule: inc_induct)
    case base
    show ?case
      using assms(2) by (simp add: for_loop_of_nat)
  next
    case (step n)
    show ?case
    proof (intro allI impI)
      fix s assume "Inv n s"
      with step.prems step.hyps(2) obtain s1 where b: "body (of_nat n) s = Inl s1" and i: "Inv (Suc n) s1"
        using assms(4) by blast
      from step.IH step.prems i obtain s' where
        "for_loop (of_nat (Suc n)) (of_nat y1) body s1 = Inl s'" "Inv y1 s'"
        by force
      then show "\<exists>s'. for_loop (of_nat n) (of_nat y1) body s = Inl s' \<and> Inv y1 s'"
        using step.hyps assms(2) b by (subst for_loop_of_nat) auto
    qed
  qed
  with assms(1,3) show ?thesis by blast
qed

lemma for_loop_partial:
  assumes "for_loop (of_nat y0) (of_nat y1) body s0 = Inl s'"
    and "y0 \<le> y1" "y1 < 2 ^ 63" "Inv y0 s0"
    and step: "\<And>k s s1. y0 \<le> k \<Longrightarrow> k < y1 \<Longrightarrow> Inv k s \<Longrightarrow> body (of_nat k) s = Inl s1 \<Longrightarrow> Inv (Suc k) s1"
  shows "Inv y1 s'"
proof -
  have "\<forall>s. Inv k s \<longrightarrow> for_loop (of_nat k) (of_nat y1) body s = Inl s' \<longrightarrow> Inv y1 s'"
    if "y0 \<le> k" "k \<le> y1" for k
    using that(2,1)
  proof (induction k rule: inc_induct)
    case base
    show ?case
      using assms(3) by (simp add: for_loop_of_nat)
  next
    case (step n)
    show ?case
    proof (intro allI impI)
      fix s assume inv: "Inv n s" and run: "for_loop (of_nat n) (of_nat y1) body s = Inl s'"
      from run step.hyps assms(3) obtain s1 where b: "body (of_nat n) s = Inl s1"
        and r: "for_loop (of_nat (Suc n)) (of_nat y1) body s1 = Inl s'"
        by (subst (asm) for_loop_of_nat) (auto split: sum.splits)
      have "Inv (Suc n) s1"
        using assms(5) [OF step.prems step.hyps(2) inv b] .
      with step.IH step.prems r show "Inv y1 s'"
        by force
    qed
  qed
  with assms(1,2,4) show ?thesis by blast
qed


section \<open>One iteration of the row loop\<close>

text \<open>The destination slice of output row \<open>j\<close> and the slice of the source buffer that holds
  the pixels \<open>x0\<close> up to \<open>x1\<close> of row \<open>k\<close>, as the loop body computes them.\<close>

definition dst_row :: "slice \<Rightarrow> nat \<Rightarrow> nat \<Rightarrow> slice" where
  "dst_row d os j = \<lparr>s_arr = s_arr d, s_off = s_off d + j * os, s_len = os, s_cap = s_cap d - j * os\<rparr>"

definition src_pix :: "slice \<Rightarrow> nat \<Rightarrow> nat \<Rightarrow> nat \<Rightarrow> nat \<Rightarrow> nat \<Rightarrow> slice" where
  "src_pix sb S ib x0 x1 k =
     \<lparr>s_arr = s_arr sb, s_off = s_off sb + k * S + x0 * ib, s_len = (x1 - x0) * ib,
      s_cap = s_cap sb - k * S - x0 * ib\<rparr>"

lemma reslice_of_nat_iff:
  assumes "a \<le> b" "b < 2 ^ 63"
  shows "reslice s (of_nat a) (of_nat b) =
           (if b \<le> s_cap s
            then Some \<lparr>s_arr = s_arr s, s_off = s_off s + a, s_len = b - a, s_cap = s_cap s - a\<rparr>
            else None)"
proof -
  have "a < 2 ^ 63" using assms by simp
  then show ?thesis
    using assms by (simp add: reslice_def sint_of_nat64)
qed

lemma Process_row_buffered:
  assumes rep: "Stride sd = of_nat S" "rbw = of_nat rb" "osw = of_nat os" "ibw = of_nat ib"
      "x0w = of_nat x0" "y0w = of_nat y0" "x1w = of_nat x1"
    and ord: "y0 \<le> k" "x0 \<le> x1"
    and fit: "k * S + rb < 2 ^ 63" "(k - y0) * os + os < 2 ^ 63" "x1 * ib < 2 ^ 63"
  shows "Process_row fn src sd (Some sb) rowBuf rbw d osw ibw x0w y0w x1w (of_nat k) (h, n) =
           (if k * S + rb \<le> s_cap sb \<and> (k - y0) * os + os \<le> s_cap d \<and> x1 * ib \<le> s_cap sb - k * S
            then (case fn h (dst_row d os (k - y0)) (src_pix sb S ib x0 x1 k) of
                    (h2, Panic) \<Rightarrow> Inr (h2, Suc n, Panic)
                  | (h2, Return u) \<Rightarrow> Inl (h2, Suc n))
            else Inr (h, n, Panic))"
proof -
  have e1: "(of_nat k :: go_int) * of_nat S = of_nat (k * S)"
    and e2: "(of_nat (k * S) :: go_int) + of_nat rb = of_nat (k * S + rb)"
    and e3: "(of_nat k :: go_int) - of_nat y0 = of_nat (k - y0)"
    and e4: "(of_nat (k - y0) :: go_int) * of_nat os = of_nat ((k - y0) * os)"
    and e5: "(of_nat ((k - y0) * os) :: go_int) + of_nat os = of_nat ((k - y0) * os + os)"
    and e6: "(of_nat x0 :: go_int) * of_nat ib = of_nat (x0 * ib)"
    and e7: "(of_nat x1 :: go_int) * of_nat ib = of_nat (x1 * ib)"
    using ord by simp_all
  have le: "x0 * ib \<le> x1 * ib"
    using ord by simp
  have r1: "reslice sb (of_nat k * of_nat S) (of_nat k * of_nat S + of_nat rb) =
      (if k * S + rb \<le> s_cap sb
       then Some \<lparr>s_arr = s_arr sb, s_off = s_off sb + k * S, s_len = rb, s_cap = s_cap sb - k * S\<rparr>
       else None)"
    unfolding e1 e2 using fit(1) by (subst reslice_of_nat_iff) simp_all
  have r2: "reslice d ((of_nat k - of_nat y0) * of_nat os) ((of_nat k - of_nat y0) * of_nat os + of_nat os) =
      (if (k - y0) * os + os \<le> s_cap d then Some (dst_row d os (k - y0)) else None)"
    unfolding e3 e4 e5 using fit(2) by (subst reslice_of_nat_iff) (simp_all add: dst_row_def)
  have r3: "reslice \<lparr>s_arr = s_arr sb, s_off = s_off sb + k * S, s_len = rb, s_cap = s_cap sb - k * S\<rparr>
        (of_nat x0 * of_nat ib) (of_nat x1 * of_nat ib) =
      (if x1 * ib \<le> s_cap sb - k * S then Some (src_pix sb S ib x0 x1 k) else None)"
    unfolding e6 e7 using fit(3) le
    by (subst reslice_of_nat_iff) (simp_all add: src_pix_def diff_mult_distrib)
  show ?thesis
    unfolding Process_row_def rep
    by (simp add: r1 r2 r3 split: prod.splits outcome.splits)
qed

lemma Process_row_unbuffered:
  assumes rep: "osw = of_nat os" "ibw = of_nat ib"
      "x0w = of_nat x0" "y0w = of_nat y0" "x1w = of_nat x1"
    and rb: "rowBuf = \<lparr>s_arr = ar, s_off = 0, s_len = rb, s_cap = rb\<rparr>"
    and ord: "y0 \<le> k" "x0 \<le> x1"
    and fit: "(k - y0) * os + os < 2 ^ 63" "x1 * ib < 2 ^ 63"
    and rd: "ReadAt src rb (of_nat k * Stride sd) = (data, err)"
  shows "Process_row fn src sd None rowBuf rbw d osw ibw x0w y0w x1w (of_nat k) (h, n) =
           (case err of
              Some e \<Rightarrow> Inr (write_bytes h rowBuf data, n, Return (zeroDims, Some e))
            | None \<Rightarrow>
                if (k - y0) * os + os \<le> s_cap d \<and> x1 * ib \<le> rb
                then (case fn (write_bytes h rowBuf data) (dst_row d os (k - y0))
                             (src_pix rowBuf 0 ib x0 x1 k) of
                        (h2, Panic) \<Rightarrow> Inr (h2, Suc n, Panic)
                      | (h2, Return u) \<Rightarrow> Inl (h2, Suc n))
                else Inr (write_bytes h rowBuf data, n, Panic))"
proof -
  have e3: "(of_nat k :: go_int) - of_nat y0 = of_nat (k - y0)"
    and e4: "(of_nat (k - y0) :: go_int) * of_nat os = of_nat ((k - y0) * os)"
    and e5: "(of_nat ((k - y0) * os) :: go_int) + of_nat os = of_nat ((k - y0) * os + os)"
    and e6: "(of_nat x0 :: go_int) * of_nat ib = of_nat (x0 * ib)"
    and e7: "(of_nat x1 :: go_int) * of_nat ib = of_nat (x1 * ib)"
    using ord by simp_all
  have le: "x0 * ib \<le> x1 * ib"
    using ord by simp
  have r2: "reslice d ((of_nat k - of_nat y0) * of_nat os) ((of_nat k - of_nat y0) * of_nat os + of_nat os) =
      (if (k - y0) * os + os \<le> s_cap d then Some (dst_row d os (k - y0)) else None)"
    unfolding e3 e4 e5 using fit(1) by (subst reslice_of_nat_iff) (simp_all add: dst_row_def)
  have r3: "reslice rowBuf (of_nat x0 * of_nat ib) (of_nat x1 * of_nat ib) =
      (if x1 * ib \<le> rb then Some (src_pix rowBuf 0 ib x0 x1 k) else None)"
    unfolding e6 e7 using fit(2) le
    by (subst reslice_of_nat_iff) (simp_all add: src_pix_def diff_mult_distrib rb)
  have l: "s_len rowBuf = rb" by (simp add: rb)
  show ?thesis
    unfolding Process_row_def rep
    by (simp add: l rd r2 r3 split: prod.splits outcome.splits option.splits)
qed


section \<open>Row functions and the loop invariant\<close>

text \<open>\<open>row_contract fn rowf ok\<close>: called on valid slices that satisfy \<open>ok\<close>, the function
  \<open>fn\<close> returns, changes nothing but the bytes of \<open>dst\<close>, and leaves there \<open>rowf\<close> of the
  bytes \<open>src\<close> showed at the call. \<open>rows_done\<close> is the state of the store once the rows
  \<open>y0\<close> up to \<open>k\<close> are written.\<close>

definition row_contract :: "PointFunc \<Rightarrow> (byte list \<Rightarrow> byte list) \<Rightarrow> (slice \<Rightarrow> slice \<Rightarrow> bool) \<Rightarrow> bool" where
  "row_contract fn rowf ok \<longleftrightarrow>
     (\<forall>h d s. valid_slice h d \<longrightarrow> valid_slice h s \<longrightarrow> ok d s \<longrightarrow>
        (\<exists>h'. fn h d s = (h', Return ()) \<and>
              frame h h' (s_arr d) (s_off d) (s_off d + s_len d) \<and>
              slice_bytes h' d = rowf (slice_bytes h s)))"

definition rows_done ::
  "store \<Rightarrow> slice \<Rightarrow> nat \<Rightarrow> (byte list \<Rightarrow> byte list) \<Rightarrow> (nat \<Rightarrow> byte list) \<Rightarrow> nat \<Rightarrow> nat \<Rightarrow> store \<Rightarrow> bool" where
  "rows_done h d os rowf R y0 k hk \<longleftrightarrow>
     frame h hk (s_arr d) (s_off d) (s_off d + (k - y0) * os) \<and>
     (\<forall>j. y0 \<le> j \<and> j < k \<longrightarrow> slice_bytes hk (dst_row d os (j - y0)) = rowf (R j))"

lemma valid_dst_row:
  assumes "valid_slice h d" "j * os + os \<le> s_cap d"
  shows "valid_slice h (dst_row d os j)"
  using assms unfolding valid_slice_def dst_row_def by auto

lemma valid_src_pix:
  assumes "valid_slice h sb" "x0 \<le> x1" "k * S + x1 * ib \<le> s_cap sb"
  shows "valid_slice h (src_pix sb S ib x0 x1 k)"
proof -
  have m: "x0 * ib \<le> x1 * ib" using assms(2) by (rule mult_le_mono1)
  have e: "(x1 - x0) * ib = x1 * ib - x0 * ib" by (rule diff_mult_distrib)
  have a: "k * S + x0 * ib \<le> s_cap sb"
    using m assms(3) by linarith
  have c: "(x1 - x0) * ib \<le> s_cap sb - k * S - x0 * ib"
    unfolding e using m assms(3) by linarith
  have "s_cap sb - k * S - x0 * ib \<le> s_cap sb"
    by simp
  then show ?thesis
    using assms(1) a c unfolding valid_slice_def src_pix_def by auto
qed

lemma rows_done_step:
  assumes inv: "rows_done h d os rowf R y0 k hk"
    and vd: "valid_slice h d" and le: "y0 \<le> k" and cap: "(k - y0) * os + os \<le> s_cap d"
    and f: "frame hk hk' (s_arr d) (s_off d + (k - y0) * os) (s_off d + (k - y0) * os + os)"
    and row: "slice_bytes hk' (dst_row d os (k - y0)) = rowf (R k)"
  shows "rows_done h d os rowf R y0 (Suc k) hk'"
proof -
  have f0: "frame h hk (s_arr d) (s_off d) (s_off d + (k - y0) * os)"
    using inv by (simp add: rows_done_def)
  have e: "(Suc k - y0) * os = (k - y0) * os + os"
    using le by (simp add: Suc_diff_le)
  have "frame h hk' (s_arr d) (s_off d) (s_off d + (Suc k - y0) * os)"
    unfolding e using frame_trans [OF f0] f by (simp add: add.assoc)
  moreover have "slice_bytes hk' (dst_row d os (j - y0)) = rowf (R j)" if j: "y0 \<le> j" "j < Suc k" for j
  proof (cases "j = k")
    case True
    then show ?thesis using row by simp
  next
    case False
    then have jk: "j < k" using j by simp
    then have "Suc (j - y0) \<le> k - y0" using j by simp
    then have "Suc (j - y0) * os \<le> (k - y0) * os" by (rule mult_le_mono1)
    then have m: "(j - y0) * os + os \<le> (k - y0) * os" by simp
    have v: "valid_slice hk (dst_row d os (j - y0))"
      using valid_dst_row [OF vd, of "j - y0" os] m cap f0 by (auto intro: valid_slice_frame)
    have "slice_bytes hk' (dst_row d os (j - y0)) = slice_bytes hk (dst_row d os (j - y0))"
      using m by (intro slice_bytes_frame [OF f v]) (simp add: dst_row_def)
    then show ?thesis
      using inv j jk by (simp add: rows_done_def)
  qed
  ultimately show ?thesis
    by (simp add: rows_done_def)
qed

lemma row_step_buffered:
  assumes c: "row_contract fn rowf ok"
    and rep: "Stride sd = of_nat S" "rbw = of_nat rb" "osw = of_nat os" "ibw = of_nat ib"
      "x0w = of_nat x0" "y0w = of_nat y0" "x1w = of_nat x1"
    and ord: "y0 \<le> k" "x0 \<le> x1"
    and fit: "k * S + rb < 2 ^ 63" "(k - y0) * os + os < 2 ^ 63" "x1 * ib < 2 ^ 63"
    and bnd: "k * S + rb \<le> s_cap sb" "(k - y0) * os + os \<le> s_cap d" "k * S + x1 * ib \<le> s_cap sb"
    and vd: "valid_slice h d" and vs: "valid_slice h sb"
    and okk: "ok (dst_row d os (k - y0)) (src_pix sb S ib x0 x1 k)"
    and noalias: "s_arr sb \<noteq> s_arr d \<or> s_off d + (k - y0) * os \<le> s_off sb + k * S + x0 * ib"
    and inv: "rows_done h d os rowf (\<lambda>j. slice_bytes h (src_pix sb S ib x0 x1 j)) y0 k hk"
  shows "\<exists>hk'. Process_row fn src sd (Some sb) rowBuf rbw d osw ibw x0w y0w x1w (of_nat k) (hk, n)
            = Inl (hk', Suc n) \<and>
          rows_done h d os rowf (\<lambda>j. slice_bytes h (src_pix sb S ib x0 x1 j)) y0 (Suc k) hk'"
proof -
  let ?D = "dst_row d os (k - y0)" and ?P = "src_pix sb S ib x0 x1 k"
  have f0: "frame h hk (s_arr d) (s_off d) (s_off d + (k - y0) * os)"
    using inv by (simp add: rows_done_def)
  have vD: "valid_slice h ?D" using valid_dst_row [OF vd bnd(2)] .
  have vP: "valid_slice h ?P" using valid_src_pix [OF vs ord(2) bnd(3)] .
  have vDk: "valid_slice hk ?D" and vPk: "valid_slice hk ?P"
    using vD vP f0 by (auto intro: valid_slice_frame)
  from c vDk vPk okk obtain hk' where
    run: "fn hk ?D ?P = (hk', Return ())"
    and f: "frame hk hk' (s_arr ?D) (s_off ?D) (s_off ?D + s_len ?D)"
    and row: "slice_bytes hk' ?D = rowf (slice_bytes hk ?P)"
    unfolding row_contract_def by blast
  have same: "slice_bytes hk ?P = slice_bytes h ?P"
    using noalias by (intro slice_bytes_frame [OF f0 vP]) (auto simp: src_pix_def)
  have b3: "x1 * ib \<le> s_cap sb - k * S" using bnd(3) by simp
  have step: "Process_row fn src sd (Some sb) rowBuf rbw d osw ibw x0w y0w x1w (of_nat k) (hk, n)
      = Inl (hk', Suc n)"
    by (simp add: Process_row_buffered [OF rep ord fit] bnd(1,2) b3 run)
  have f': "frame hk hk' (s_arr d) (s_off d + (k - y0) * os) (s_off d + (k - y0) * os + os)"
    using f by (simp add: dst_row_def)
  have "rows_done h d os rowf (\<lambda>j. slice_bytes h (src_pix sb S ib x0 x1 j)) y0 (Suc k) hk'"
    using row same by (intro rows_done_step [OF inv vd ord(1) bnd(2) f']) simp
  with step show ?thesis by blast
qed


lemma rows_done_other:
  assumes inv: "rows_done h d os rowf R y0 k hk"
    and vd: "valid_slice h d" and cap: "(k - y0) * os \<le> s_cap d"
    and f: "frame hk h1 ar lo hi" and ar: "length h \<le> ar"
  shows "rows_done h d os rowf R y0 k h1"
proof -
  have f0: "frame h hk (s_arr d) (s_off d) (s_off d + (k - y0) * os)"
    using inv by (simp add: rows_done_def)
  have ne: "s_arr d \<noteq> ar"
    using vd ar by (auto simp: valid_slice_def)
  have "slice_bytes h1 (dst_row d os (j - y0)) = rowf (R j)" if j: "y0 \<le> j" "j < k" for j
  proof -
    have "Suc (j - y0) \<le> k - y0" using j by simp
    then have "Suc (j - y0) * os \<le> (k - y0) * os" by (rule mult_le_mono1)
    then have m: "(j - y0) * os + os \<le> s_cap d" using cap by simp
    have v: "valid_slice hk (dst_row d os (j - y0))"
      using valid_dst_row [OF vd m] f0 by (auto intro: valid_slice_frame)
    have "slice_bytes h1 (dst_row d os (j - y0)) = slice_bytes hk (dst_row d os (j - y0))"
      using ne by (intro slice_bytes_frame [OF f v]) (simp add: dst_row_def)
    then show ?thesis
      using inv j by (simp add: rows_done_def)
  qed
  with frame_other [OF f0 f ar] show ?thesis
    by (simp add: rows_done_def)
qed

lemma row_step_unbuffered:
  assumes c: "row_contract fn rowf ok"
    and rep: "osw = of_nat os" "ibw = of_nat ib" "x0w = of_nat x0" "y0w = of_nat y0" "x1w = of_nat x1"
    and rb: "rowBuf = \<lparr>s_arr = ar, s_off = 0, s_len = rb, s_cap = rb\<rparr>" and ar: "length h \<le> ar"
    and ord: "y0 \<le> k" "x0 \<le> x1"
    and fit: "(k - y0) * os + os < 2 ^ 63" "x1 * ib < 2 ^ 63"
    and bnd: "(k - y0) * os + os \<le> s_cap d" "x1 * ib \<le> rb"
    and rd: "ReadAt src rb (of_nat k * Stride sd) = (data, None)" and full: "rb \<le> length data"
    and vd: "valid_slice h d" and vr: "valid_slice hk rowBuf"
    and okk: "ok (dst_row d os (k - y0)) (src_pix rowBuf 0 ib x0 x1 k)"
    and inv: "rows_done h d os rowf
        (\<lambda>j. take ((x1 - x0) * ib) (drop (x0 * ib) (fst (ReadAt src rb (of_nat j * Stride sd))))) y0 k hk"
  shows "\<exists>hk'. Process_row fn src sd None rowBuf rbw d osw ibw x0w y0w x1w (of_nat k) (hk, n)
            = Inl (hk', Suc n) \<and>
          rows_done h d os rowf
            (\<lambda>j. take ((x1 - x0) * ib) (drop (x0 * ib) (fst (ReadAt src rb (of_nat j * Stride sd)))))
            y0 (Suc k) hk' \<and>
          valid_slice hk' rowBuf"
proof -
  let ?D = "dst_row d os (k - y0)" and ?P = "src_pix rowBuf 0 ib x0 x1 k"
  let ?R = "\<lambda>j. take ((x1 - x0) * ib) (drop (x0 * ib) (fst (ReadAt src rb (of_nat j * Stride sd))))"
  let ?h1 = "write_bytes hk rowBuf data"
  have f1: "frame hk ?h1 ar 0 rb"
    using write_bytes_frame [OF vr, of data] unfolding rb by simp
  have vr1: "valid_slice ?h1 rowBuf"
    using vr f1 by (rule valid_slice_frame [rotated])
  have c0: "(k - y0) * os \<le> s_cap d" using bnd(1) by simp
  have inv1: "rows_done h d os rowf ?R y0 k ?h1"
    by (rule rows_done_other [OF inv vd c0 f1 ar])
  then have f01: "frame h ?h1 (s_arr d) (s_off d) (s_off d + (k - y0) * os)"
    by (simp add: rows_done_def)
  have vD: "valid_slice ?h1 ?D"
    using valid_dst_row [OF vd bnd(1)] f01 by (rule valid_slice_frame [rotated])
  have vP: "valid_slice ?h1 ?P"
    using bnd(2) by (intro valid_src_pix [OF vr1 ord(2)]) (simp add: rb)
  have m: "x0 * ib \<le> x1 * ib" using ord(2) by (rule mult_le_mono1)
  have e: "(x1 - x0) * ib = x1 * ib - x0 * ib" by (rule diff_mult_distrib)
  from c vD vP okk obtain hk' where
    run: "fn ?h1 ?D ?P = (hk', Return ())"
    and f: "frame ?h1 hk' (s_arr ?D) (s_off ?D) (s_off ?D + s_len ?D)"
    and row: "slice_bytes hk' ?D = rowf (slice_bytes ?h1 ?P)"
    unfolding row_contract_def by blast
  have ra: "s_arr rowBuf = ar" "s_off rowBuf = 0" "s_len rowBuf = rb" "s_cap rowBuf = rb"
    by (simp_all add: rb)
  have arr1: "?h1 ! ar = take rb data @ drop rb (hk ! ar)"
    using vr full unfolding write_bytes_def valid_slice_def ra Let_def by simp
  have lP: "s_len ?P = (x1 - x0) * ib" and oP: "s_off ?P = x0 * ib" and aP: "s_arr ?P = ar"
    by (simp_all add: src_pix_def ra)
  have xr: "x0 * ib + (x1 - x0) * ib \<le> rb"
    unfolding e using m bnd(2) by linarith
  have same: "slice_bytes ?h1 ?P = ?R k"
  proof (rule nth_equalityI)
    show "length (slice_bytes ?h1 ?P) = length (?R k)"
      using xr full by (simp add: length_slice_bytes [OF vP] lP rd)
  next
    fix i assume "i < length (slice_bytes ?h1 ?P)"
    then have i: "i < (x1 - x0) * ib"
      by (simp add: length_slice_bytes [OF vP] lP)
    then have ir: "x0 * ib + i < rb" using xr by simp
    have "slice_bytes ?h1 ?P ! i = (?h1 ! ar) ! (x0 * ib + i)"
      using slice_bytes_nth [OF vP, of i] i by (simp add: lP oP aP)
    also have "\<dots> = data ! (x0 * ib + i)"
      using ir full by (simp add: arr1 nth_append)
    also have "\<dots> = ?R k ! i"
      using i ir full by (simp add: rd)
    finally show "slice_bytes ?h1 ?P ! i = ?R k ! i" .
  qed
  have step: "Process_row fn src sd None rowBuf rbw d osw ibw x0w y0w x1w (of_nat k) (hk, n)
      = Inl (hk', Suc n)"
    by (simp add: Process_row_unbuffered [OF rep rb ord fit rd] bnd run)
  have f': "frame ?h1 hk' (s_arr d) (s_off d + (k - y0) * os) (s_off d + (k - y0) * os + os)"
    using f by (simp add: dst_row_def)
  have "rows_done h d os rowf ?R y0 (Suc k) hk'"
    using row same by (intro rows_done_step [OF inv1 vd ord(1) bnd(1) f']) simp
  moreover have "valid_slice hk' rowBuf"
    using vr1 f by (rule valid_slice_frame [rotated])
  ultimately show ?thesis
    using step by blast
qed


section \<open>The whole row loop\<close>

lemma row_le_last:
  assumes "k < y1"
  shows "k * S + r \<le> (y1 - 1) * S + (r :: nat)"
proof -
  have "k \<le> y1 - 1" using assms by simp
  then have "k * S \<le> (y1 - 1) * S" by (rule mult_le_mono1)
  then show ?thesis by simp
qed

lemma dst_row_le_last:
  assumes "y0 \<le> k" "k < y1"
  shows "(k - y0) * os + os \<le> (y1 - y0) * (os :: nat)"
proof -
  have "Suc (k - y0) \<le> y1 - y0" using assms by simp
  then have "Suc (k - y0) * os \<le> (y1 - y0) * os" by (rule mult_le_mono1)
  then show ?thesis by simp
qed

lemma loop_buffered:
  assumes c: "row_contract fn rowf ok"
    and rep: "Stride sd = of_nat S" "rbw = of_nat rb" "osw = of_nat os" "ibw = of_nat ib"
      "x0w = of_nat x0" "y0w = of_nat y0" "x1w = of_nat x1"
    and ord: "y0 \<le> y1" "x0 \<le> x1"
    and fit: "y1 < 2 ^ 63" "s_cap sb < 2 ^ 63" "s_cap d < 2 ^ 63"
    and bnd: "(y1 - 1) * S + rb \<le> s_cap sb" "(y1 - y0) * os \<le> s_cap d" "(y1 - 1) * S + x1 * ib \<le> s_cap sb"
    and vd: "valid_slice h d" and vs: "valid_slice h sb"
    and okk: "\<And>k. y0 \<le> k \<Longrightarrow> k < y1 \<Longrightarrow> ok (dst_row d os (k - y0)) (src_pix sb S ib x0 x1 k)"
    and noalias: "\<And>k. y0 \<le> k \<Longrightarrow> k < y1 \<Longrightarrow>
        s_arr sb \<noteq> s_arr d \<or> s_off d + (k - y0) * os \<le> s_off sb + k * S + x0 * ib"
    and init: "frame h h0 (s_arr d) (s_off d) (s_off d)"
  shows "\<exists>h'. for_loop (of_nat y0) (of_nat y1)
            (Process_row fn src sd (Some sb) rowBuf rbw d osw ibw x0w y0w x1w) (h0, 0)
            = Inl (h', y1 - y0) \<and>
          rows_done h d os rowf (\<lambda>j. slice_bytes h (src_pix sb S ib x0 x1 j)) y0 y1 h'"
proof -
  let ?R = "\<lambda>j. slice_bytes h (src_pix sb S ib x0 x1 j)"
  let ?Inv = "\<lambda>k st. rows_done h d os rowf ?R y0 k (fst st) \<and> snd st = k - y0"
  have i0: "?Inv y0 (h0, 0)"
    using init by (auto simp: rows_done_def)
  have st: "\<exists>s'. Process_row fn src sd (Some sb) rowBuf rbw d osw ibw x0w y0w x1w (of_nat k) s = Inl s'
      \<and> ?Inv (Suc k) s'"
    if k: "y0 \<le> k" "k < y1" and inv: "?Inv k s" for k s
  proof -
    obtain hk n where s: "s = (hk, n)" by (cases s)
    have b1: "k * S + rb \<le> s_cap sb"
      using row_le_last [OF k(2), of S rb] bnd(1) by linarith
    have b2: "(k - y0) * os + os \<le> s_cap d"
      using dst_row_le_last [OF k, of os] bnd(2) by linarith
    have b3: "k * S + x1 * ib \<le> s_cap sb"
      using row_le_last [OF k(2), of S "x1 * ib"] bnd(3) by linarith
    have f1: "k * S + rb < 2 ^ 63" and f2: "(k - y0) * os + os < 2 ^ 63" and f3: "x1 * ib < 2 ^ 63"
      using b1 b2 b3 fit by linarith+
    from row_step_buffered [OF c rep k(1) ord(2) f1 f2 f3 b1 b2 b3 vd vs okk [OF k] noalias [OF k],
        of hk src rowBuf n] inv s
    obtain hk' where "Process_row fn src sd (Some sb) rowBuf rbw d osw ibw x0w y0w x1w (of_nat k) (hk, n)
            = Inl (hk', Suc n)" "rows_done h d os rowf ?R y0 (Suc k) hk'"
      by auto
    then show ?thesis
      using s inv k by (auto simp: Suc_diff_le)
  qed
  from for_loop_total [where Inv = ?Inv and ?s0.0 = "(h0, 0)"
      and body = "Process_row fn src sd (Some sb) rowBuf rbw d osw ibw x0w y0w x1w",
      OF ord(1) fit(1) i0 st]
  obtain s' where r: "for_loop (of_nat y0) (of_nat y1)
      (Process_row fn src sd (Some sb) rowBuf rbw d osw ibw x0w y0w x1w) (h0, 0) = Inl s'"
    and i: "?Inv y1 s'"
    by blast
  obtain h' n where s': "s' = (h', n)" by (cases s')
  show ?thesis
    using r i unfolding s' by (intro exI [of _ h']) simp
qed

lemma loop_unbuffered:
  assumes c: "row_contract fn rowf ok"
    and rep: "osw = of_nat os" "ibw = of_nat ib" "x0w = of_nat x0" "y0w = of_nat y0" "x1w = of_nat x1"
    and rb: "rowBuf = \<lparr>s_arr = ar, s_off = 0, s_len = rb, s_cap = rb\<rparr>" and ar: "length h \<le> ar"
    and ord: "y0 \<le> y1" "x0 \<le> x1"
    and fit: "y1 < 2 ^ 63" "rb < 2 ^ 63" "s_cap d < 2 ^ 63"
    and bnd: "(y1 - y0) * os \<le> s_cap d" "x1 * ib \<le> rb"
    and rd: "\<And>k. y0 \<le> k \<Longrightarrow> k < y1 \<Longrightarrow>
        snd (ReadAt src rb (of_nat k * Stride sd)) = None \<and>
        rb \<le> length (fst (ReadAt src rb (of_nat k * Stride sd)))"
    and vd: "valid_slice h d"
    and okk: "\<And>k. y0 \<le> k \<Longrightarrow> k < y1 \<Longrightarrow> ok (dst_row d os (k - y0)) (src_pix rowBuf 0 ib x0 x1 k)"
    and init: "frame h h0 (s_arr d) (s_off d) (s_off d)" "valid_slice h0 rowBuf"
  shows "\<exists>h'. for_loop (of_nat y0) (of_nat y1)
            (Process_row fn src sd None rowBuf rbw d osw ibw x0w y0w x1w) (h0, 0)
            = Inl (h', y1 - y0) \<and>
          rows_done h d os rowf
            (\<lambda>j. take ((x1 - x0) * ib) (drop (x0 * ib) (fst (ReadAt src rb (of_nat j * Stride sd)))))
            y0 y1 h'"
proof -
  let ?R = "\<lambda>j. take ((x1 - x0) * ib) (drop (x0 * ib) (fst (ReadAt src rb (of_nat j * Stride sd))))"
  let ?Inv = "\<lambda>k st. rows_done h d os rowf ?R y0 k (fst st) \<and> snd st = k - y0 \<and> valid_slice (fst st) rowBuf"
  have i0: "?Inv y0 (h0, 0)"
    using init by (auto simp: rows_done_def)
  have st: "\<exists>s'. Process_row fn src sd None rowBuf rbw d osw ibw x0w y0w x1w (of_nat k) s = Inl s'
      \<and> ?Inv (Suc k) s'"
    if k: "y0 \<le> k" "k < y1" and inv: "?Inv k s" for k s
  proof -
    obtain hk n where s: "s = (hk, n)" by (cases s)
    obtain data where r: "ReadAt src rb (of_nat k * Stride sd) = (data, None)" and full: "rb \<le> length data"
      using rd [OF k] by (cases "ReadAt src rb (of_nat k * Stride sd)") auto
    have b2: "(k - y0) * os + os \<le> s_cap d"
      using dst_row_le_last [OF k, of os] bnd(1) by linarith
    have f2: "(k - y0) * os + os < 2 ^ 63" and f3: "x1 * ib < 2 ^ 63"
      using b2 bnd(2) fit by linarith+
    from row_step_unbuffered [OF c rep rb ar k(1) ord(2) f2 f3 b2 bnd(2) r full vd _ okk [OF k],
        where hk = hk and n = n and rbw = rbw] inv s
    obtain hk' where "Process_row fn src sd None rowBuf rbw d osw ibw x0w y0w x1w (of_nat k) (hk, n)
            = Inl (hk', Suc n)" "rows_done h d os rowf ?R y0 (Suc k) hk'" "valid_slice hk' rowBuf"
      by auto
    then show ?thesis
      using s inv k by (auto simp: Suc_diff_le)
  qed
  from for_loop_total [where Inv = ?Inv and ?s0.0 = "(h0, 0)"
      and body = "Process_row fn src sd None rowBuf rbw d osw ibw x0w y0w x1w",
      OF ord(1) fit(1) i0 st]
  obtain s' where r: "for_loop (of_nat y0) (of_nat y1)
      (Process_row fn src sd None rowBuf rbw d osw ibw x0w y0w x1w) (h0, 0) = Inl s'"
    and i: "?Inv y1 s'"
    by blast
  obtain h' n where s': "s' = (h', n)" by (cases s')
  show ?thesis
    using r i unfolding s' by (intro exI [of _ h']) simp
qed


section \<open>Process after a successful validation\<close>

lemma Process_whole:
  assumes "Fn f = Some fn" "Shape (Dims_of src) = In f"
    and "ValidateProcessArgs dst (Process_dstDims f src None) src None = (Some out, sd, None)"
    and "0 \<le> sint (SizeRow (Dims_of src))"
  shows "Process f h dst src None =
    (case for_loop 0 (Height (Dims_of src))
            (Process_row fn src (Dims_of src) (case Buffer src of Some b \<Rightarrow> b | None \<Rightarrow> None)
               \<lparr>s_arr = length h, s_off = 0, s_len = nat (sint (SizeRow (Dims_of src))),
                 s_cap = nat (sint (SizeRow (Dims_of src)))\<rparr>
               (SizeRow (Dims_of src)) out (Stride (Process_dstDims f src None))
               (quo (BitsPerPixel (In f) + 7) 8) 0 0 (Width (Dims_of src)))
            (h @ [replicate (nat (sint (SizeRow (Dims_of src)))) 0], 0) of
       Inr r \<Rightarrow> r
     | Inl (h', n) \<Rightarrow> (h', n, Return (Process_dstDims f src None, None)))"
  using assms by (simp add: Process_def ShapeIO_def make_bytes_def Let_def)

lemma Process_roi:
  assumes "Fn f = Some fn" "Shape (Dims_of src) = In f"
    and "ValidateProcessArgs dst (Process_dstDims f src (Some r)) src (Some r) = (Some out, sd, None)"
    and "0 \<le> sint (SizeRow (Dims_of src))"
  shows "Process f h dst src (Some r) =
    (case for_loop (Y (Min_pt r)) (Y (Max_pt r))
            (Process_row fn src (Dims_of src) (case Buffer src of Some b \<Rightarrow> b | None \<Rightarrow> None)
               \<lparr>s_arr = length h, s_off = 0, s_len = nat (sint (SizeRow (Dims_of src))),
                 s_cap = nat (sint (SizeRow (Dims_of src)))\<rparr>
               (SizeRow (Dims_of src)) out (Stride (Process_dstDims f src (Some r)))
               (quo (BitsPerPixel (In f) + 7) 8) (X (Min_pt r)) (Y (Min_pt r)) (X (Max_pt r)))
            (h @ [replicate (nat (sint (SizeRow (Dims_of src)))) 0], 0) of
       Inr r \<Rightarrow> r
     | Inl (h', n) \<Rightarrow> (h', n, Return (Process_dstDims f src (Some r), None)))"
  using assms by (simp add: Process_def ShapeIO_def make_bytes_def Let_def)

section \<open>Inverting an RGB888 image once\<close>

text \<open>
  The notions the statements about whole images use. \<open>fits_int\<close>: the row size and the
  byte size of the image are computed without overflow. \<open>resolve_dst\<close>: the buffer the
  output goes to, the supplied one or, in place, the source's. \<open>src_rows_ok\<close>: the source
  provides every row, by a valid buffer that holds the total readable size or by reads that
  fill the row without error. \<open>image_row\<close>: the bytes of row \<open>k\<close> of the source.
\<close>

definition fits_int :: "Dims \<Rightarrow> bool" where
  "fits_int d \<longleftrightarrow>
     sint (Width d) * sint (BitsPerPixel (Shape d)) + 7 < 2 ^ 63 \<and>
     sint (Height d) * sint (Stride d) < 2 ^ 63"

definition resolve_dst :: "slice option \<Rightarrow> Image \<Rightarrow> slice option" where
  "resolve_dst dst src =
     (case dst of Some b \<Rightarrow> Some b | None \<Rightarrow> (case Buffer src of Some b \<Rightarrow> b | None \<Rightarrow> None))"

definition src_rows_ok :: "store \<Rightarrow> Image \<Rightarrow> bool" where
  "src_rows_ok h src \<longleftrightarrow>
     (let d = Dims_of src; rb = nat (sint (SizeRow d))
      in case Buffer src of
           Some (Some sb) \<Rightarrow>
             valid_slice h sb \<and>
             (sint (Height d) - 1) * sint (Stride d) + sint (SizeRow d) \<le> int (s_len sb)
         | _ \<Rightarrow>
             (\<forall>k < nat (sint (Height d)).
                snd (ReadAt src rb (of_nat k * Stride d)) = None \<and>
                rb \<le> length (fst (ReadAt src rb (of_nat k * Stride d)))))"

definition image_row :: "store \<Rightarrow> Image \<Rightarrow> nat \<Rightarrow> byte list" where
  "image_row h src k =
     (let d = Dims_of src; rb = nat (sint (SizeRow d))
      in case Buffer src of
           Some (Some sb) \<Rightarrow> take rb (drop (k * nat (sint (Stride d))) (slice_bytes h sb))
         | _ \<Rightarrow> take rb (fst (ReadAt src rb (of_nat k * Stride d))))"

lemma invert_contract:
  "row_contract invert_Fn (map (\<lambda>v. 255 - v))
     (\<lambda>d s. s_len d = s_len s \<and> (s_arr d \<noteq> s_arr s \<or> s_off d \<le> s_off s))"
  unfolding row_contract_def
proof (intro allI impI)
  fix h d s
  assume vd: "valid_slice h d" and vs: "valid_slice h s"
    and ok: "s_len d = s_len s \<and> (s_arr d \<noteq> s_arr s \<or> s_off d \<le> s_off s)"
  from invert_loop_spec [OF vd vs, of 0] ok obtain h' where
    run: "invert_loop d s 0 h = (h', Return ())"
    and f: "frame h h' (s_arr d) (s_off d) (s_off d + s_len s)"
    and vals: "\<forall>j. j < s_len s \<longrightarrow> (h' ! s_arr d) ! (s_off d + j) = 255 - (h ! s_arr s) ! (s_off s + j)"
    by auto
  have vd': "valid_slice h' d"
    using vd f by (rule valid_slice_frame [rotated])
  have "slice_bytes h' d = map (\<lambda>v. 255 - v) (slice_bytes h s)"
  proof (rule nth_equalityI)
    show "length (slice_bytes h' d) = length (map (\<lambda>v. 255 - v) (slice_bytes h s))"
      using ok by (simp add: length_slice_bytes [OF vd'] length_slice_bytes [OF vs])
  next
    fix i assume "i < length (slice_bytes h' d)"
    then have i: "i < s_len s" "i < s_len d"
      using ok by (simp_all add: length_slice_bytes [OF vd'])
    show "slice_bytes h' d ! i = map (\<lambda>v. 255 - v) (slice_bytes h s) ! i"
      using i vals by (simp add: slice_bytes_nth [OF vd'] slice_bytes_nth [OF vs] length_slice_bytes [OF vs])
  qed
  with run f ok show "\<exists>h'. invert_Fn h d s = (h', Return ()) \<and>
      frame h h' (s_arr d) (s_off d) (s_off d + s_len d) \<and>
      slice_bytes h' d = map (\<lambda>v. 255 - v) (slice_bytes h s)"
    by (auto simp: invert_Fn_def)
qed

lemma Validate_nat:
  assumes v: "Validate d = None" and fit: "fits_int d"
  defines "W \<equiv> nat (sint (Width d))" and "H \<equiv> nat (sint (Height d))"
    and "S \<equiv> nat (sint (Stride d))" and "b \<equiv> nat (sint (BitsPerPixel (Shape d)))"
  shows "Width d = of_nat W" "Height d = of_nat H" "Stride d = of_nat S"
    "SizeRow d = of_nat ((W * b + 7) div 8)" "0 < W" "0 < H" "1 \<le> b" "b \<le> 32"
    "(W * b + 7) div 8 \<le> S" "H * S < 2 ^ 63" "W * b + 7 < 2 ^ 63"
    "sint (Width d) = int W" "sint (Height d) = int H" "sint (Stride d) = int S"
proof -
  from v have h: "0 < sint (Height d)" and w: "0 < sint (Width d)"
    and bb: "1 \<le> sint (BitsPerPixel (Shape d))" and rs: "sint (SizeRow d) \<le> sint (Stride d)"
    by (simp_all add: Validate_None_iff word_sless_alt word_sle_eq)
  show "Width d = of_nat W" "Height d = of_nat H" "0 < W" "0 < H" "1 \<le> b"
    using h w bb by (simp_all add: W_def H_def b_def)
  show b32: "b \<le> 32"
    using BitsPerPixel_range [of "Shape d"] bb by (auto simp: b_def)
  from fit have f1: "sint (Width d) * sint (BitsPerPixel (Shape d)) + 7 < 2 ^ 63"
    and f2: "sint (Height d) * sint (Stride d) < 2 ^ 63"
    by (simp_all add: fits_int_def)
  have sr: "sint (SizeRow d) = (sint (Width d) * sint (BitsPerPixel (Shape d)) + 7) div 8"
    using w bb f1 by (intro SizeRow_no_overflow) simp_all
  have wb: "int (W * b) = sint (Width d) * sint (BitsPerPixel (Shape d))"
    using w bb by (simp add: W_def b_def)
  then have srn: "sint (SizeRow d) = int ((W * b + 7) div 8)"
    using sr by (simp add: zdiv_int)
  have s0: "0 \<le> sint (Stride d)"
    using rs srn by simp
  then show "Stride d = of_nat S"
    by (simp add: S_def)
  have "SizeRow d = word_of_int (sint (SizeRow d))" by simp
  then show "SizeRow d = of_nat ((W * b + 7) div 8)"
    unfolding srn by simp
  show "(W * b + 7) div 8 \<le> S"
    using rs srn s0 by (simp add: S_def)
  have "int (H * S) = sint (Height d) * sint (Stride d)"
    using h s0 by (simp add: H_def S_def)
  then have "int (H * S) < 2 ^ 63" using f2 by simp
  then show "H * S < 2 ^ 63"
    by (simp add: of_nat_less_numeral_power_cancel_iff [where 'a = int, symmetric] del: of_nat_less_numeral_power_cancel_iff of_nat_mult)
  have "int (W * b + 7) < 2 ^ 63" using f1 wb by simp
  then show "W * b + 7 < 2 ^ 63"
    by (simp add: of_nat_less_numeral_power_cancel_iff [where 'a = int, symmetric] del: of_nat_less_numeral_power_cancel_iff of_nat_mult of_nat_add)
  show "sint (Width d) = int W" "sint (Height d) = int H" "sint (Stride d) = int S"
    using w h s0 by (simp_all add: W_def H_def S_def)
qed

lemma pred_mult_add:
  assumes "0 < (H :: nat)"
  shows "(H - 1) * S + S = H * S"
  using assms by (cases H) simp_all

lemma le_mult_pos:
  assumes "0 < (S :: nat)"
  shows "H \<le> H * S"
  using assms by (cases S) simp_all

lemma nat_le_of_int_le:
  assumes "int a * int b + int c \<le> int e"
  shows "a * b + c \<le> e"
  using assms by (metis of_nat_add of_nat_le_iff of_nat_mult)



lemma ValidateProcessArgs_whole_ok:
  assumes "Validate (Dims_of src) = None" "resolve_dst dst src = Some out"
    and "dst = None \<longrightarrow> Shape dd = Shape (Dims_of src) \<and> sint (Size (Dims_of src)) \<le> int (s_len out)"
    and "sint (Stride dd * Height dd) \<le> int (s_len out)"
  shows "ValidateProcessArgs dst dd src None = (Some out, Dims_of src, None)"
  using assms
  by (auto simp: ValidateProcessArgs_def resolve_dst_def split: option.splits)

lemma slice_bytes_sub:
  assumes "m + n \<le> s_len sb"
  shows "slice_bytes h \<lparr>s_arr = s_arr sb, s_off = s_off sb + m, s_len = n, s_cap = c\<rparr>
         = take n (drop m (slice_bytes h sb))"
  using assms by (simp add: slice_bytes_def drop_take add.commute min_def)

lemma Process_dstDims_invert:
  "Process_dstDims NewInvertedPerPixel src None =
     \<lparr>Width = Width (Dims_of src), Height = Height (Dims_of src),
      Stride = Width (Dims_of src) * 3, Shape = ShapeRGB888\<rparr>"
  by (simp add: Process_dstDims_def ShapeIO_def NewInvertedPerPixel_def BitsPerPixel_def
      Shape_defs quo_def Let_def)


lemma invert_once:
  fixes src :: Image
  defines "W \<equiv> nat (sint (Width (Dims_of src)))" and "H \<equiv> nat (sint (Height (Dims_of src)))"
  assumes sh: "Shape (Dims_of src) = ShapeRGB888" and v: "Validate (Dims_of src) = None"
    and fit: "fits_int (Dims_of src)" and rows: "src_rows_ok h src"
    and out: "resolve_dst dst src = Some out" and vo: "valid_slice h out"
    and sz: "dst \<noteq> None \<longrightarrow> H * (3 * W) \<le> s_len out"
    and al: "dst \<noteq> None \<longrightarrow> (\<forall>sb. Buffer src = Some (Some sb) \<longrightarrow> s_arr sb \<noteq> s_arr out)"
  shows "\<exists>h'. Process NewInvertedPerPixel h dst src None =
            (h', H, Return (\<lparr>Width = Width (Dims_of src), Height = Height (Dims_of src),
                              Stride = Width (Dims_of src) * 3, Shape = ShapeRGB888\<rparr>, None)) \<and>
          frame h h' (s_arr out) (s_off out) (s_off out + H * (3 * W)) \<and>
          (\<forall>k<H. slice_bytes h' (dst_row out (3 * W) k) = map (\<lambda>v. 255 - v) (image_row h src k)) \<and>
          H * (3 * W) \<le> s_len out \<and> 0 < W \<and> 0 < H \<and> H * (3 * W) < 2 ^ 63 \<and>
          Width (Dims_of src) = of_nat W \<and> Height (Dims_of src) = of_nat H"
proof -
  let ?d = "Dims_of src"
  define S where "S = nat (sint (Stride ?d))"
  have b24: "nat (sint (BitsPerPixel (Shape ?d))) = 24"
    by (simp add: sh BitsPerPixel_def Shape_defs)
  have rb3: "(W * 24 + 7) div 8 = 3 * W" by simp
  note n = Validate_nat [OF v fit, unfolded b24, folded W_def H_def S_def, unfolded rb3]
  have wW: "Width ?d = of_nat W" and hH: "Height ?d = of_nat H" and sS: "Stride ?d = of_nat S"
    and rb: "SizeRow ?d = of_nat (3 * W)" and W0: "0 < W" and H0: "0 < H" and rS: "3 * W \<le> S"
    and HS: "H * S < 2 ^ 63"
    and iW: "sint (Width ?d) = int W" and iH: "sint (Height ?d) = int H" and iS: "sint (Stride ?d) = int S"
    using n by simp_all
  have S0: "0 < S" using rS W0 by simp
  have H63: "H < 2 ^ 63"
    using le_mult_pos [OF S0, of H] HS by linarith
  have HW: "H * (3 * W) \<le> H * S" using rS by (rule mult_le_mono2)
  have HW63: "H * (3 * W) < 2 ^ 63" using HW HS by linarith
  have last: "(H - 1) * S + 3 * W \<le> H * S"
    using pred_mult_add [OF H0, of S] rS by linarith
  have rb63: "3 * W < 2 ^ 63" using last HS by linarith
  have srb: "sint (SizeRow ?d) = int (3 * W)"
    unfolding rb using rb63 by (rule sint_of_nat64)
  have nrb: "nat (sint (SizeRow ?d)) = 3 * W"
    using srb by simp
  have dd: "Process_dstDims NewInvertedPerPixel src None =
      \<lparr>Width = Width ?d, Height = Height ?d, Stride = Width ?d * 3, Shape = ShapeRGB888\<rparr>"
    by (rule Process_dstDims_invert)
  have os: "Width ?d * 3 = of_nat (3 * W)"
    by (simp add: wW)
  have hne: "Height ?d \<noteq> 0" "Width ?d \<noteq> 0"
    using v by (auto simp: Validate_None_iff word_sless_alt)
  have "Size ?d = (of_nat H - 1) * of_nat S + of_nat (3 * W)"
    using hne by (simp add: Size_def rb) (simp add: hH sS)
  also have "(of_nat H - 1 :: go_int) = of_nat (H - 1)"
    using H0 by (simp add: of_nat_diff)
  finally have size: "Size ?d = of_nat ((H - 1) * S + 3 * W)"
    by simp
  have ssize: "sint (Size ?d) = int ((H - 1) * S + 3 * W)"
    unfolding size using last HS by (intro sint_of_nat64) linarith
  have req: "sint (Width ?d * 3 * Height ?d) = int (H * (3 * W))"
  proof -
    have "Width ?d * 3 * Height ?d = of_nat (H * (3 * W))"
      by (simp add: wW hH)
    moreover have "H * (3 * W) < 2 ^ 63" using HW HS by linarith
    ultimately show ?thesis by (simp only: sint_of_nat64)
  qed
  have inplace: "(H - 1) * S + 3 * W \<le> s_len sb" if bs: "Buffer src = Some (Some sb)" for sb
  proof -
    have "(sint (Height ?d) - 1) * sint (Stride ?d) + sint (SizeRow ?d) \<le> int (s_len sb)"
      using rows by (simp add: src_rows_ok_def bs Let_def)
    then have "int (H - 1) * int S + int (3 * W) \<le> int (s_len sb)"
      using H0 by (simp add: iH iS srb of_nat_diff)
    then show ?thesis by (rule nat_le_of_int_le)
  qed
  have lower: "H * (3 * W) \<le> (H - 1) * S + 3 * W"
  proof -
    have "(H - 1) * (3 * W) \<le> (H - 1) * S" using rS by (rule mult_le_mono2)
    then show ?thesis using pred_mult_add [OF H0, of "3 * W"] by linarith
  qed
  have outsz: "H * (3 * W) \<le> s_len out"
  proof (cases dst)
    case (Some b)
    then show ?thesis using sz by simp
  next
    case None
    with out obtain sb where bs: "Buffer src = Some (Some sb)" and o: "out = sb"
      by (auto simp: resolve_dst_def split: option.splits)
    show ?thesis unfolding o using inplace [OF bs] lower by linarith
  qed
  have fnI: "Fn NewInvertedPerPixel = Some invert_Fn" "Shape ?d = In NewInvertedPerPixel"
    by (simp_all add: NewInvertedPerPixel_def sh)
  have ib: "quo (BitsPerPixel (In NewInvertedPerPixel) + 7) 8 = of_nat 3"
    by (simp add: NewInvertedPerPixel_def BitsPerPixel_def Shape_defs quo_def)
  have sdd: "Stride (Process_dstDims NewInvertedPerPixel src None) = of_nat (3 * W)"
    by (simp add: dd os)
  have z: "(0 :: go_int) = of_nat 0" by simp
  have vpa: "ValidateProcessArgs dst (Process_dstDims NewInvertedPerPixel src None) src None
      = (Some out, ?d, None)"
  proof (rule ValidateProcessArgs_whole_ok [OF v out])
    show "dst = None \<longrightarrow> Shape (Process_dstDims NewInvertedPerPixel src None) = Shape ?d \<and>
        sint (Size ?d) \<le> int (s_len out)"
    proof
      assume "dst = None"
      with out obtain sb where bs: "Buffer src = Some (Some sb)" and o: "out = sb"
        by (auto simp: resolve_dst_def split: option.splits)
      have "sint (Size ?d) \<le> int (s_len sb)"
        unfolding ssize using inplace [OF bs] by (simp only: of_nat_le_iff)
      then show "Shape (Process_dstDims NewInvertedPerPixel src None) = Shape ?d \<and>
        sint (Size ?d) \<le> int (s_len out)"
        by (simp add: dd sh o)
    qed
    show "sint (Stride (Process_dstDims NewInvertedPerPixel src None)
        * Height (Process_dstDims NewInvertedPerPixel src None)) \<le> int (s_len out)"
      unfolding dd using outsz by (simp add: req del: of_nat_mult)
  qed
  have srb0: "0 \<le> sint (SizeRow ?d)" using srb by simp
  note run = Process_whole [OF fnI vpa srb0, of h, unfolded nrb]
  let ?h0 = "h @ [replicate (3 * W) 0]"
  let ?rowBuf = "\<lparr>s_arr = length h, s_off = 0, s_len = 3 * W, s_cap = 3 * W\<rparr>"
  have init: "frame h ?h0 (s_arr out) (s_off out) (s_off out)"
    by (rule frame_append)
  have capo: "(H - 0) * (3 * W) \<le> s_cap out"
    using outsz vo by (simp add: valid_slice_def)
  have co63: "s_cap out < 2 ^ 63"
    using vo by (simp add: valid_slice_def)
  show ?thesis
  proof (cases "\<exists>sb. Buffer src = Some (Some sb)")
    case True
    then obtain sb where bs: "Buffer src = Some (Some sb)" by blast
    have vs: "valid_slice h sb"
      using rows by (simp add: src_rows_ok_def bs Let_def)
    have cs63: "s_cap sb < 2 ^ 63" and lc: "s_len sb \<le> s_cap sb"
      using vs by (simp_all add: valid_slice_def)
    have b1: "(H - 1) * S + 3 * W \<le> s_cap sb"
      using inplace [OF bs] lc by linarith
    have b3: "(H - 1) * S + W * 3 \<le> s_cap sb"
      using b1 by (simp add: mult.commute)
    have noal: "s_arr sb \<noteq> s_arr out \<or> s_off out + (k - 0) * (3 * W) \<le> s_off sb + k * S + 0 * 3" for k
    proof (cases dst)
      case (Some b)
      then show ?thesis using al bs by simp
    next
      case None
      with out bs have o: "out = sb" by (simp add: resolve_dst_def)
      have "k * (3 * W) \<le> k * S" using rS by (rule mult_le_mono2)
      then show ?thesis by (simp add: o)
    qed
    have okk: "s_len (dst_row out (3 * W) (k - 0)) = s_len (src_pix sb S 3 0 W k) \<and>
        (s_arr (dst_row out (3 * W) (k - 0)) \<noteq> s_arr (src_pix sb S 3 0 W k) \<or>
         s_off (dst_row out (3 * W) (k - 0)) \<le> s_off (src_pix sb S 3 0 W k))" for k
      using noal [of k] by (auto simp: dst_row_def src_pix_def)
    have "\<exists>h'. for_loop (of_nat 0) (of_nat H)
          (Process_row invert_Fn src ?d (Some sb) ?rowBuf (SizeRow ?d) out
             (Stride (Process_dstDims NewInvertedPerPixel src None))
             (quo (BitsPerPixel (In NewInvertedPerPixel) + 7) 8) 0 0 (Width ?d))
          (?h0, 0) = Inl (h', H - 0) \<and>
        rows_done h out (3 * W) (map (\<lambda>v. 255 - v))
          (\<lambda>j. slice_bytes h (src_pix sb S 3 0 W j)) 0 H h'"
      by (rule loop_buffered [OF invert_contract sS rb sdd ib z z wW _ _ H63 cs63 co63 b1 capo b3
            vo vs okk noal init]) simp_all
    then obtain h' where lp: "for_loop 0 (Height ?d)
          (Process_row invert_Fn src ?d (Some sb) ?rowBuf (SizeRow ?d) out
             (Stride (Process_dstDims NewInvertedPerPixel src None))
             (quo (BitsPerPixel (In NewInvertedPerPixel) + 7) 8) 0 0 (Width ?d))
          (?h0, 0) = Inl (h', H)"
      and rd: "rows_done h out (3 * W) (map (\<lambda>v. 255 - v))
          (\<lambda>j. slice_bytes h (src_pix sb S 3 0 W j)) 0 H h'"
      unfolding hH by auto
    have res: "Process NewInvertedPerPixel h dst src None =
        (h', H, Return (Process_dstDims NewInvertedPerPixel src None, None))"
      unfolding run bs option.case lp by simp
    have rowk: "slice_bytes h (src_pix sb S 3 0 W k) = image_row h src k" if k: "k < H" for k
    proof -
      have "k * S + 3 * W \<le> s_len sb"
        using row_le_last [OF k, of S "3 * W"] inplace [OF bs] by linarith
      then have "slice_bytes h \<lparr>s_arr = s_arr sb, s_off = s_off sb + k * S, s_len = 3 * W,
            s_cap = s_cap sb - k * S - 0 * 3\<rparr> = take (3 * W) (drop (k * S) (slice_bytes h sb))"
        by (rule slice_bytes_sub)
      then show ?thesis
        by (simp add: src_pix_def image_row_def bs Let_def nrb S_def mult.commute)
    qed
    show ?thesis
      using res rd rowk outsz W0 H0 HW63 wW hH
      by (intro exI [of _ h']) (simp add: dd rows_done_def)
  next
    case False
    then have sbn: "(case Buffer src of Some b \<Rightarrow> b | None \<Rightarrow> None) = None"
      by (auto split: option.splits)
    have reads: "snd (ReadAt src (3 * W) (of_nat k * Stride ?d)) = None \<and>
        3 * W \<le> length (fst (ReadAt src (3 * W) (of_nat k * Stride ?d)))" if "k < H" for k
      using rows False that
      by (auto simp: src_rows_ok_def Let_def nrb H_def split: option.splits)
    have ne: "s_arr out \<noteq> length h"
      using vo by (auto simp: valid_slice_def)
    have okk: "s_len (dst_row out (3 * W) (k - 0)) = s_len (src_pix ?rowBuf 0 3 0 W k) \<and>
        (s_arr (dst_row out (3 * W) (k - 0)) \<noteq> s_arr (src_pix ?rowBuf 0 3 0 W k) \<or>
         s_off (dst_row out (3 * W) (k - 0)) \<le> s_off (src_pix ?rowBuf 0 3 0 W k))" for k
      using ne by (auto simp: dst_row_def src_pix_def)
    have vr: "valid_slice ?h0 ?rowBuf"
      using rb63 by (simp add: valid_slice_def)
    have b2: "W * 3 \<le> 3 * W" by simp
    have "\<exists>h'. for_loop (of_nat 0) (of_nat H)
          (Process_row invert_Fn src ?d None ?rowBuf (SizeRow ?d) out
             (Stride (Process_dstDims NewInvertedPerPixel src None))
             (quo (BitsPerPixel (In NewInvertedPerPixel) + 7) 8) 0 0 (Width ?d))
          (?h0, 0) = Inl (h', H - 0) \<and>
        rows_done h out (3 * W) (map (\<lambda>v. 255 - v))
          (\<lambda>j. take ((W - 0) * 3) (drop (0 * 3) (fst (ReadAt src (3 * W) (of_nat j * Stride ?d)))))
          0 H h'"
      by (rule loop_unbuffered [OF invert_contract sdd ib z z wW refl _ _ _ H63 rb63 co63 capo b2
            reads vo okk init vr]) simp_all
    then obtain h' where lp: "for_loop 0 (Height ?d)
          (Process_row invert_Fn src ?d None ?rowBuf (SizeRow ?d) out
             (Stride (Process_dstDims NewInvertedPerPixel src None))
             (quo (BitsPerPixel (In NewInvertedPerPixel) + 7) 8) 0 0 (Width ?d))
          (?h0, 0) = Inl (h', H)"
      and rd: "rows_done h out (3 * W) (map (\<lambda>v. 255 - v))
          (\<lambda>j. take ((W - 0) * 3) (drop (0 * 3) (fst (ReadAt src (3 * W) (of_nat j * Stride ?d)))))
          0 H h'"
      unfolding hH by auto
    have res: "Process NewInvertedPerPixel h dst src None =
        (h', H, Return (Process_dstDims NewInvertedPerPixel src None, None))"
      unfolding run sbn lp by simp
    have rowk: "take ((W - 0) * 3) (drop (0 * 3) (fst (ReadAt src (3 * W) (of_nat k * Stride ?d))))
        = image_row h src k" for k
      using False by (auto simp: image_row_def Let_def nrb mult.commute split: option.splits)
    show ?thesis
      using res rd rowk outsz W0 H0 HW63 wW hH
      by (intro exI [of _ h']) (simp add: dd rows_done_def)
  qed
qed

section \<open>Inverting an RGB888 image twice\<close>

lemma inv_inv: "map (\<lambda>v. 255 - v) (map (\<lambda>v. 255 - v) xs) = (xs :: byte list)"
  by (induction xs) simp_all

lemma inv_inv_comp: "map ((\<lambda>v. 255 - v) \<circ> (\<lambda>v. 255 - v)) xs = (xs :: byte list)"
  by (induction xs) simp_all

lemma slice_bytes_dst_row:
  assumes "j * os + os \<le> s_len d"
  shows "slice_bytes h (dst_row d os j) = take os (drop (j * os) (slice_bytes h d))"
  unfolding dst_row_def using assms by (rule slice_bytes_sub)


lemma packed_dims:
  assumes W: "Width d = of_nat W" "0 < W" and H: "Height d = of_nat H" "0 < H"
    and fit: "H * (3 * W) < 2 ^ 63" "W * 24 + 7 < 2 ^ 63"
  defines "p \<equiv> \<lparr>Width = Width d, Height = Height d, Stride = Width d * 3, Shape = ShapeRGB888\<rparr>"
  shows "Validate p = None" "fits_int p" "nat (sint (Width p)) = W" "nat (sint (Height p)) = H"
    "nat (sint (Stride p)) = 3 * W" "nat (sint (SizeRow p)) = 3 * W"
    "sint (Height p) = int H" "sint (Stride p) = int (3 * W)" "sint (SizeRow p) = int (3 * W)"
proof -
  have W3: "3 * W < 2 ^ 63" and W63: "W < 2 ^ 63" using fit(2) by simp_all
  have H63: "H < 2 ^ 63"
  proof -
    have "H \<le> H * (3 * W)" using W(2) by (intro le_mult_pos) simp
    then show ?thesis using fit(1) by linarith
  qed
  have sW: "sint (Width d) = int W" and sH: "sint (Height d) = int H"
    using W63 H63 by (simp_all add: W(1) H(1) sint_of_nat64)
  have st: "Width d * 3 = of_nat (3 * W)" by (simp add: W(1))
  have sS: "sint (Width d * 3) = int (3 * W)"
    unfolding st using W3 by (rule sint_of_nat64)
  have b: "BitsPerPixel ShapeRGB888 = 24" by (simp add: BitsPerPixel_def Shape_defs)
  have f1: "sint (Width d) * sint (BitsPerPixel ShapeRGB888) + 7 < 2 ^ 63"
  proof -
    have "int (W * 24 + 7) < 2 ^ 63"
      using fit(2)
      by (simp add: of_nat_less_numeral_power_cancel_iff [where 'a = int, symmetric]
          del: of_nat_less_numeral_power_cancel_iff of_nat_mult of_nat_add)
    then show ?thesis by (simp add: sW b)
  qed
  have sr: "sint (SizeRow p) = (sint (Width p) * sint (BitsPerPixel (Shape p)) + 7) div 8"
    using W(2) f1 by (intro SizeRow_no_overflow) (simp_all add: p_def sW b)
  then show srp: "sint (SizeRow p) = int (3 * W)"
    by (simp add: p_def sW b)
  then show "nat (sint (SizeRow p)) = 3 * W" by simp
  show "sint (Height p) = int H" "sint (Stride p) = int (3 * W)"
    by (simp_all add: p_def sH sS)
  show "nat (sint (Width p)) = W" "nat (sint (Height p)) = H" "nat (sint (Stride p)) = 3 * W"
    by (simp_all add: p_def sW sH sS)
  show "Validate p = None"
    unfolding Validate_None_iff using W(2) H(2) srp
    by (simp add: word_sless_alt word_sle_eq) (simp add: p_def sW sH sS b)
  have "int (H * (3 * W)) < 2 ^ 63"
    using fit(1)
    by (simp add: of_nat_less_numeral_power_cancel_iff [where 'a = int, symmetric]
        del: of_nat_less_numeral_power_cancel_iff of_nat_mult of_nat_add)
  then show "fits_int p"
    using f1 by (simp add: fits_int_def) (simp add: p_def sH sS b)
qed


text \<open>
  C5, as amended. Take an RGB888 image with valid Dims whose sizes fit the 64-bit \<open>int\<close>
  and which provides every row, and destination buffers that are either nil (in place, on
  a buffered image) or hold \<open>3 * Width * Height\<close> bytes in an array other than the one
  being read. Applying the inversion filter twice, the second time to the first output
  with the \<open>Dims\<close> the first call returned, returns those \<open>Dims\<close> both times without
  error, and the second output holds, packed at stride \<open>3 * Width\<close>, the original bytes
  of every pixel row. When both calls are in place and the source's stride is
  \<open>3 * Width\<close> or the image has a single row, the source's buffer is byte for byte what
  it was.
\<close>

theorem invert_twice:
  fixes src :: Image
  defines "W \<equiv> nat (sint (Width (Dims_of src)))" and "H \<equiv> nat (sint (Height (Dims_of src)))"
    and "d1 \<equiv> \<lparr>Width = Width (Dims_of src), Height = Height (Dims_of src),
                 Stride = Width (Dims_of src) * 3, Shape = ShapeRGB888\<rparr>"
  assumes sh: "Shape (Dims_of src) = ShapeRGB888" and v: "Validate (Dims_of src) = None"
    and fit: "fits_int (Dims_of src)" and rows: "src_rows_ok h src"
    and o1: "resolve_dst dst1 src = Some out1" and v1: "valid_slice h out1"
    and sz1: "dst1 \<noteq> None \<longrightarrow> H * (3 * W) \<le> s_len out1"
    and al1: "dst1 \<noteq> None \<longrightarrow> (\<forall>sb. Buffer src = Some (Some sb) \<longrightarrow> s_arr sb \<noteq> s_arr out1)"
    and s2: "src2 = \<lparr>Dims_of = d1, ReadAt = ra, Buffer = Some (Some out1)\<rparr>"
    and o2: "resolve_dst dst2 src2 = Some out2" and v2: "valid_slice h out2"
    and sz2: "dst2 \<noteq> None \<longrightarrow> H * (3 * W) \<le> s_len out2 \<and> s_arr out2 \<noteq> s_arr out1"
  shows "\<exists>h1 h2.
           Process NewInvertedPerPixel h dst1 src None = (h1, H, Return (d1, None)) \<and>
           Process NewInvertedPerPixel h1 dst2 src2 None = (h2, H, Return (d1, None)) \<and>
           (\<forall>k<H. slice_bytes h2 (dst_row out2 (3 * W) k) = image_row h src k) \<and>
           (dst1 = None \<and> dst2 = None \<and>
            (Stride (Dims_of src) = Width (Dims_of src) * 3 \<or> Height (Dims_of src) = 1)
              \<longrightarrow> h2 ! s_arr out1 = h ! s_arr out1)"
proof -
  let ?inv = "map (\<lambda>v :: byte. 255 - v)"
  from invert_once [OF sh v fit rows o1 v1 sz1 [unfolded W_def H_def] al1,
      folded W_def H_def d1_def]
  obtain h1 where r1: "Process NewInvertedPerPixel h dst1 src None = (h1, H, Return (d1, None))"
    and f1: "frame h h1 (s_arr out1) (s_off out1) (s_off out1 + H * (3 * W))"
    and rows1: "\<forall>k<H. slice_bytes h1 (dst_row out1 (3 * W) k) = ?inv (image_row h src k)"
    and big1: "H * (3 * W) \<le> s_len out1" and W0: "0 < W" and H0: "0 < H"
    and HW: "H * (3 * W) < 2 ^ 63"
    and wW: "Width (Dims_of src) = of_nat W" and hH: "Height (Dims_of src) = of_nat H"
    by blast
  have b24: "nat (sint (BitsPerPixel (Shape (Dims_of src)))) = 24"
    by (simp add: sh BitsPerPixel_def Shape_defs)
  have W24: "W * 24 + 7 < 2 ^ 63"
    using Validate_nat(11) [OF v fit] by (simp add: b24 W_def)
  note p = packed_dims [OF wW W0 hH H0 HW W24, folded d1_def]
  have d2: "Dims_of src2 = d1" and b2: "Buffer src2 = Some (Some out1)"
    by (simp_all add: s2)
  have v11: "valid_slice h1 out1" and v21: "valid_slice h1 out2"
    using v1 v2 f1 by (auto intro: valid_slice_frame)
  have last: "(H - 1) * (3 * W) + 3 * W = H * (3 * W)"
    by (rule pred_mult_add [OF H0])
  have rows2: "src_rows_ok h1 src2"
  proof -
    have "int (H - 1) * int (3 * W) + int (3 * W) = int (H * (3 * W))"
      using last by (metis of_nat_add of_nat_mult)
    moreover have "int (H * (3 * W)) \<le> int (s_len out1)"
      using big1 by (simp only: of_nat_le_iff)
    ultimately have "(int H - 1) * int (3 * W) + int (3 * W) \<le> int (s_len out1)"
      using H0 by (simp add: of_nat_diff del: of_nat_mult)
    then show ?thesis
      by (simp add: src_rows_ok_def d2 b2 Let_def v11 p(7,8,9) del: of_nat_mult)
  qed
  have sh2: "Shape (Dims_of src2) = ShapeRGB888" by (simp add: d2 d1_def)
  have vd2: "Validate (Dims_of src2) = None" and fit2: "fits_int (Dims_of src2)"
    using p(1,2) by (simp_all add: d2)
  have W2: "nat (sint (Width (Dims_of src2))) = W" and H2: "nat (sint (Height (Dims_of src2))) = H"
    using p(3,4) by (simp_all add: d2)
  have dd2: "\<lparr>Width = Width (Dims_of src2), Height = Height (Dims_of src2),
      Stride = Width (Dims_of src2) * 3, Shape = ShapeRGB888\<rparr> = d1"
    by (simp add: d2) (simp add: d1_def)
  have al2: "dst2 \<noteq> None \<longrightarrow> (\<forall>sb. Buffer src2 = Some (Some sb) \<longrightarrow> s_arr sb \<noteq> s_arr out2)"
    using sz2 by (auto simp: b2)
  have sz2': "dst2 \<noteq> None \<longrightarrow> nat (sint (Height (Dims_of src2))) * (3 * nat (sint (Width (Dims_of src2))))
      \<le> s_len out2"
    using sz2 unfolding W2 H2 by simp
  from invert_once [OF sh2 vd2 fit2 rows2 o2 v21 sz2' al2, unfolded W2 H2 dd2]
  obtain h2 where r2: "Process NewInvertedPerPixel h1 dst2 src2 None = (h2, H, Return (d1, None))"
    and f2: "frame h1 h2 (s_arr out2) (s_off out2) (s_off out2 + H * (3 * W))"
    and rows22: "\<forall>k<H. slice_bytes h2 (dst_row out2 (3 * W) k) = ?inv (image_row h1 src2 k)"
    by blast
  have row: "slice_bytes h2 (dst_row out2 (3 * W) k) = image_row h src k" if k: "k < H" for k
  proof -
    have le: "k * (3 * W) + 3 * W \<le> s_len out1"
      using dst_row_le_last [of 0 k H "3 * W"] k big1 by simp
    have "image_row h1 src2 k = take (3 * W) (drop (k * (3 * W)) (slice_bytes h1 out1))"
      by (simp add: image_row_def d2 b2 Let_def p(5,6))
    also have "\<dots> = slice_bytes h1 (dst_row out1 (3 * W) k)"
      using slice_bytes_dst_row [OF le] by simp
    finally have "image_row h1 src2 k = ?inv (image_row h src k)"
      using rows1 k by simp
    then show ?thesis
      using rows22 k by (simp add: inv_inv_comp)
  qed
  have restore: "h2 ! s_arr out1 = h ! s_arr out1"
    if ip: "dst1 = None" "dst2 = None"
      and tight: "Stride (Dims_of src) = Width (Dims_of src) * 3 \<or> Height (Dims_of src) = 1"
  proof -
    let ?a = "s_arr out1" and ?o = "s_off out1" and ?n = "H * (3 * W)"
    have bs: "Buffer src = Some (Some out1)"
      using o1 ip(1) by (auto simp: resolve_dst_def split: option.splits)
    have o: "out2 = out1"
      using o2 ip(2) by (simp add: resolve_dst_def b2)
    have S: "k * nat (sint (Stride (Dims_of src))) = k * (3 * W)" if "k < H" for k
      using tight
    proof
      assume "Stride (Dims_of src) = Width (Dims_of src) * 3"
      then have "Stride (Dims_of src) = of_nat (3 * W)"
        by (simp add: wW)
      moreover have "3 * W < 2 ^ 63" using W24 by simp
      ultimately have "nat (sint (Stride (Dims_of src))) = 3 * W"
        by (simp only: sint_of_nat64 nat_int)
      then show ?thesis by simp
    next
      assume "Height (Dims_of src) = 1"
      then have "H = 1" by (simp add: H_def)
      then show ?thesis using that by simp
    qed
    have a: "?a < length h" and fitb: "?o + s_len out1 \<le> length (h ! ?a)"
      using v1 by (auto simp: valid_slice_def)
    have l1: "length (h1 ! ?a) = length (h ! ?a)"
      by (rule frame_length_nth [OF f1 a])
    have a1: "?a < length h1" using a frame_length [OF f1] by simp
    have l2: "length (h2 ! ?a) = length (h1 ! ?a)"
      by (rule frame_length_nth [OF f2 a1])
    have v22: "valid_slice h2 out1"
      using v11 f2 by (rule valid_slice_frame [rotated])
    show ?thesis
    proof (rule nth_equalityI)
      show "length (h2 ! ?a) = length (h ! ?a)" using l1 l2 by simp
    next
      fix p assume "p < length (h2 ! ?a)"
      then have p: "p < length (h ! ?a)" using l1 l2 by simp
      show "(h2 ! ?a) ! p = (h ! ?a) ! p"
      proof (cases "p < ?o \<or> ?o + ?n \<le> p")
        case True
        have "(h1 ! ?a) ! p = (h ! ?a) ! p"
          using True by (intro frame_nth [OF f1 a p]) simp
        moreover have "(h2 ! ?a) ! p = (h1 ! ?a) ! p"
          using True p l1 o by (intro frame_nth [OF f2 a1]) simp_all
        ultimately show ?thesis by simp
      next
        case False
        define q where "q = p - ?o"
        define k where "k = q div (3 * W)"
        define c where "c = q mod (3 * W)"
        have q: "q < ?n" and pq: "p = ?o + q" unfolding q_def using False by linarith+
        have k: "k < H"
          unfolding k_def using q by (intro less_mult_imp_div_less) (simp add: mult.commute)
        have c: "c < 3 * W" unfolding c_def using W0 by simp
        have qkc: "q = k * (3 * W) + c"
          unfolding k_def c_def by (rule div_mult_mod_eq [symmetric])
        have le: "k * (3 * W) + 3 * W \<le> s_len out1"
          using dst_row_le_last [of 0 k H "3 * W"] k big1 by simp
        have vk: "valid_slice h2 (dst_row out1 (3 * W) k)"
          using le v22 by (intro valid_dst_row) (auto simp: valid_slice_def)
        have "(h2 ! ?a) ! p = slice_bytes h2 (dst_row out1 (3 * W) k) ! c"
          using slice_bytes_nth [OF vk, of c] c by (simp add: dst_row_def pq qkc add.assoc)
        also have "\<dots> = image_row h src k ! c"
          using row [OF k] by (simp add: o)
        also have "image_row h src k = take (3 * W) (drop (k * (3 * W)) (slice_bytes h out1))"
        proof -
          have "nat (sint (SizeRow (Dims_of src))) = 3 * W"
            using Validate_nat(4) [OF v fit] W24
            by (simp add: b24 W_def [symmetric] sint_of_nat64 del: of_nat_mult of_nat_add of_nat_numeral)
          then show ?thesis
            by (simp add: image_row_def bs Let_def S [OF k])
        qed
        also have "\<dots> ! c = slice_bytes h out1 ! (k * (3 * W) + c)"
          using c le by (simp add: length_slice_bytes [OF v1])
        also have "\<dots> = (h ! ?a) ! p"
          using slice_bytes_nth [OF v1, of q] le c by (simp add: pq qkc)
        finally show ?thesis .
      qed
    qed
  qed
  show ?thesis
    using r1 r2 row restore by blast
qed


theorem invert_twice_witness:
  "\<exists>h1 h2.
     Process NewInvertedPerPixel [[1, 2, 3, 4, 5, 6, 7, 8, 9, 10, 11, 12]] None
       \<lparr>Dims_of = \<lparr>Width = 2, Height = 2, Stride = 6, Shape = ShapeRGB888\<rparr>,
         ReadAt = (\<lambda>n off. ([], None)),
         Buffer = Some (Some \<lparr>s_arr = 0, s_off = 0, s_len = 12, s_cap = 12\<rparr>)\<rparr> None
       = (h1, 2, Return (\<lparr>Width = 2, Height = 2, Stride = 6, Shape = ShapeRGB888\<rparr>, None)) \<and>
     Process NewInvertedPerPixel h1 None
       \<lparr>Dims_of = \<lparr>Width = 2, Height = 2, Stride = 6, Shape = ShapeRGB888\<rparr>,
         ReadAt = (\<lambda>n off. ([], None)),
         Buffer = Some (Some \<lparr>s_arr = 0, s_off = 0, s_len = 12, s_cap = 12\<rparr>)\<rparr> None
       = (h2, 2, Return (\<lparr>Width = 2, Height = 2, Stride = 6, Shape = ShapeRGB888\<rparr>, None)) \<and>
     h2 ! 0 = [1, 2, 3, 4, 5, 6, 7, 8, 9, 10, 11, 12]"
proof -
  let ?h = "[[1, 2, 3, 4, 5, 6, 7, 8, 9, 10, 11, 12 :: byte]]"
  let ?b = "\<lparr>s_arr = 0, s_off = 0, s_len = 12, s_cap = 12\<rparr>"
  let ?d = "\<lparr>Width = 2, Height = 2, Stride = 6, Shape = ShapeRGB888\<rparr>"
  let ?src = "\<lparr>Dims_of = ?d, ReadAt = (\<lambda>n off. ([], None)) :: nat \<Rightarrow> go_int \<Rightarrow> byte list \<times> error option,
      Buffer = Some (Some ?b)\<rparr>"
  have sh: "Shape (Dims_of ?src) = ShapeRGB888" by simp
  have v: "Validate (Dims_of ?src) = None"
    by (simp add: Validate_def BitsPerPixel_def Shape_defs quo_def word_sle_eq word_sless_alt)
  have fit: "fits_int (Dims_of ?src)"
    by (simp add: fits_int_def BitsPerPixel_def Shape_defs)
  have vb: "valid_slice ?h ?b"
    by (simp add: valid_slice_def)
  have rows: "src_rows_ok ?h ?src"
    by (simp add: src_rows_ok_def vb SizeRow_def BitsPerPixel_def Shape_defs quo_def)
  have o1: "resolve_dst None ?src = Some ?b"
    by (simp add: resolve_dst_def)
  have s2: "?src = \<lparr>Dims_of = \<lparr>Width = Width (Dims_of ?src), Height = Height (Dims_of ?src),
                 Stride = Width (Dims_of ?src) * 3, Shape = ShapeRGB888\<rparr>,
        ReadAt = (\<lambda>n off. ([], None)), Buffer = Some (Some ?b)\<rparr>"
    by simp
  from invert_twice [OF sh v fit rows o1 vb _ _ s2 o1 vb]
  show ?thesis
    by simp blast
qed

text \<open>
  C5 as stated fails for an in-place call on an image with row padding and more than one
  row. A 2 by 2 RGB888
  image with stride 8 in a 14-byte buffer: the first in-place call writes the inverted
  rows packed at stride 6 and returns \<open>Dims\<close> with stride 6. A second in-place call, on
  the returned \<open>Dims\<close> or on the source's own \<open>Dims\<close>, does not give back the original
  buffer contents.
\<close>

theorem invert_in_place_padded_counterexample:
  "Process NewInvertedPerPixel [[1, 2, 3, 4, 5, 6, 7, 8, 9, 10, 11, 12, 13, 14]] None
     \<lparr>Dims_of = \<lparr>Width = 2, Height = 2, Stride = 8, Shape = ShapeRGB888\<rparr>,
       ReadAt = (\<lambda>n off. ([], None)),
       Buffer = Some (Some \<lparr>s_arr = 0, s_off = 0, s_len = 14, s_cap = 14\<rparr>)\<rparr> None
     = ([[254, 253, 252, 251, 250, 249, 246, 245, 244, 243, 242, 241, 13, 14], [0, 0, 0, 0, 0, 0]],
        2, Return (\<lparr>Width = 2, Height = 2, Stride = 6, Shape = ShapeRGB888\<rparr>, None))
   \<and> Process NewInvertedPerPixel
       [[254, 253, 252, 251, 250, 249, 246, 245, 244, 243, 242, 241, 13, 14], [0, 0, 0, 0, 0, 0]] None
     \<lparr>Dims_of = \<lparr>Width = 2, Height = 2, Stride = 6, Shape = ShapeRGB888\<rparr>,
       ReadAt = (\<lambda>n off. ([], None)),
       Buffer = Some (Some \<lparr>s_arr = 0, s_off = 0, s_len = 14, s_cap = 14\<rparr>)\<rparr> None
     = ([[1, 2, 3, 4, 5, 6, 9, 10, 11, 12, 13, 14, 13, 14], [0, 0, 0, 0, 0, 0], [0, 0, 0, 0, 0, 0]],
        2, Return (\<lparr>Width = 2, Height = 2, Stride = 6, Shape = ShapeRGB888\<rparr>, None))
   \<and> Process NewInvertedPerPixel
       [[254, 253, 252, 251, 250, 249, 246, 245, 244, 243, 242, 241, 13, 14], [0, 0, 0, 0, 0, 0]] None
     \<lparr>Dims_of = \<lparr>Width = 2, Height = 2, Stride = 8, Shape = ShapeRGB888\<rparr>,
       ReadAt = (\<lambda>n off. ([], None)),
       Buffer = Some (Some \<lparr>s_arr = 0, s_off = 0, s_len = 14, s_cap = 14\<rparr>)\<rparr> None
     = ([[1, 2, 3, 4, 5, 6, 11, 12, 13, 14, 242, 241, 13, 14], [0, 0, 0, 0, 0, 0], [0, 0, 0, 0, 0, 0]],
        2, Return (\<lparr>Width = 2, Height = 2, Stride = 6, Shape = ShapeRGB888\<rparr>, None))
   \<and> [1, 2, 3, 4, 5, 6, 9, 10, 11, 12, 13, 14, 13, 14]
       \<noteq> [1, 2, 3, 4, 5, 6, 7, 8, 9, 10, 11, 12, 13, 14 :: byte]
   \<and> [1, 2, 3, 4, 5, 6, 11, 12, 13, 14, 242, 241, 13, 14]
       \<noteq> [1, 2, 3, 4, 5, 6, 7, 8, 9, 10, 11, 12, 13, 14 :: byte]"
  by code_simp

section \<open>Row functions that work pixel by pixel\<close>

text \<open>
  A \<open>PointFunc\<close> receives one row of pixels. \<open>pixel_map ib g n\<close> is the row function that
  cuts a row of \<open>n\<close> pixels of \<open>ib\<close> bytes each into pixels and applies \<open>g\<close> to every one of them;
  \<open>per_pixel ib ob g fn\<close> says that the callback \<open>fn\<close> computes it, for every row width, on a
  destination that lies in another array than the source: each output pixel of \<open>ob\<close> bytes
  depends on the input pixel at the same position only.
\<close>

definition pixel_map :: "nat \<Rightarrow> (byte list \<Rightarrow> byte list) \<Rightarrow> nat \<Rightarrow> byte list \<Rightarrow> byte list" where
  "pixel_map ib g n bs = concat (map (\<lambda>i. g (take ib (drop (i * ib) bs))) [0..<n])"

definition per_pixel :: "nat \<Rightarrow> nat \<Rightarrow> (byte list \<Rightarrow> byte list) \<Rightarrow> PointFunc \<Rightarrow> bool" where
  "per_pixel ib ob g fn \<longleftrightarrow>
     (\<forall>p. length p = ib \<longrightarrow> length (g p) = ob) \<and>
     (\<forall>n. row_contract fn (pixel_map ib g n)
            (\<lambda>d s. s_arr d \<noteq> s_arr s \<and> s_len s = n * ib \<and> s_len d = n * ob))"

lemma length_concat_const:
  assumes "\<And>x. x \<in> set xs \<Longrightarrow> length (F x) = c"
  shows "length (concat (map F xs)) = length xs * c"
  using assms by (induction xs) simp_all

lemma concat_mid:
  assumes "length A = a" "length B = b"
  shows "take b (drop a (A @ B @ C)) = B"
  using assms by simp

lemma pixel_map_sub:
  assumes g: "\<And>p. length p = ib \<Longrightarrow> length (g p) = ob"
    and x: "x0 \<le> x1" "x1 \<le> W" and len: "W * ib \<le> length row"
  shows "pixel_map ib g (x1 - x0) (take ((x1 - x0) * ib) (drop (x0 * ib) row))
         = take ((x1 - x0) * ob) (drop (x0 * ob) (pixel_map ib g W row))"
proof -
  let ?F = "\<lambda>i. g (take ib (drop (i * ib) row))"
  have lenF: "length (?F i) = ob" if "i < W" for i
  proof -
    have "Suc i * ib \<le> W * ib" using that by (intro mult_le_mono1) simp
    then have "i * ib + ib \<le> length row" using len by simp
    then show ?thesis by (intro g) simp
  qed
  have left: "pixel_map ib g (x1 - x0) (take ((x1 - x0) * ib) (drop (x0 * ib) row))
      = concat (map ?F [x0..<x1])"
  proof -
    have "take ib (drop (i * ib) (take ((x1 - x0) * ib) (drop (x0 * ib) row)))
        = take ib (drop ((x0 + i) * ib) row)" if i: "i < x1 - x0" for i
    proof -
      have "Suc i * ib \<le> (x1 - x0) * ib" using i by (intro mult_le_mono1) simp
      then have "i * ib + ib \<le> (x1 - x0) * ib" by simp
      then show ?thesis
        by (simp add: drop_take add_mult_distrib add.commute min_def)
    qed
    then have "map (\<lambda>i. g (take ib (drop (i * ib) (take ((x1 - x0) * ib) (drop (x0 * ib) row))))) [0..<x1 - x0]
        = map (\<lambda>i. ?F (x0 + i)) [0..<x1 - x0]"
      by simp
    also have "\<dots> = map ?F (map (\<lambda>i. x0 + i) [0..<x1 - x0])"
      by simp
    also have "map (\<lambda>i. x0 + i) [0..<x1 - x0] = [x0..<x1]"
      using x(1) by (simp add: map_add_upt add.commute)
    finally show ?thesis
      by (simp add: pixel_map_def)
  qed
  have "[0..<x0 + (x1 - x0)] = [0..<x0] @ [x0..<x0 + (x1 - x0)]"
    by (rule upt_add_eq_append) simp
  moreover have "[0..<x1 + (W - x1)] = [0..<x1] @ [x1..<x1 + (W - x1)]"
    by (rule upt_add_eq_append) simp
  ultimately have split: "[0..<W] = [0..<x0] @ [x0..<x1] @ [x1..<W]"
    using x by simp
  have "pixel_map ib g W row
      = concat (map ?F [0..<x0]) @ concat (map ?F [x0..<x1]) @ concat (map ?F [x1..<W])"
    by (simp add: pixel_map_def split)
  moreover have "length (concat (map ?F [0..<x0])) = x0 * ob"
    using x by (subst length_concat_const [where c = ob]) (auto intro: lenF)
  moreover have "length (concat (map ?F [x0..<x1])) = (x1 - x0) * ob"
    using x by (subst length_concat_const [where c = ob]) (auto intro: lenF)
  ultimately have "take ((x1 - x0) * ob) (drop (x0 * ob) (pixel_map ib g W row))
      = concat (map ?F [x0..<x1])"
    by (simp only: concat_mid)
  with left show ?thesis by simp
qed

lemma concat_chunks:
  "concat (map (\<lambda>i. take ib (drop (i * ib) bs)) [0..<n]) = take (n * ib) bs"
proof (induction n)
  case 0
  show ?case by simp
next
  case (Suc n)
  have "take (n * ib) bs @ take ib (drop (n * ib) bs) = take (n * ib + ib) bs"
    by (simp add: take_add)
  then show ?case using Suc by (simp add: add.commute)
qed

lemma pixel_map_bytewise:
  assumes "length bs = n * ib"
  shows "pixel_map ib (map f) n bs = map f bs"
proof -
  have "pixel_map ib (map f) n bs = map f (concat (map (\<lambda>i. take ib (drop (i * ib) bs)) [0..<n]))"
    by (simp add: pixel_map_def map_concat comp_def)
  then show ?thesis using assms by (simp add: concat_chunks)
qed

lemma invert_per_pixel: "per_pixel 3 3 (map (\<lambda>v. 255 - v)) invert_Fn"
  unfolding per_pixel_def
proof (intro conjI allI impI)
  fix p :: "byte list" assume "length p = 3"
  then show "length (map (\<lambda>v. 255 - v) p) = 3" by simp
next
  fix n
  show "row_contract invert_Fn (pixel_map 3 (map (\<lambda>v. 255 - v)) n)
      (\<lambda>d s. s_arr d \<noteq> s_arr s \<and> s_len s = n * 3 \<and> s_len d = n * 3)"
    unfolding row_contract_def
  proof (intro allI impI)
    fix h d s
    assume vd: "valid_slice h d" and vs: "valid_slice h s"
      and ok: "s_arr d \<noteq> s_arr s \<and> s_len s = n * 3 \<and> s_len d = n * 3"
    have ok': "s_len d = s_len s \<and> (s_arr d \<noteq> s_arr s \<or> s_off d \<le> s_off s)"
      using ok by simp
    from invert_contract [unfolded row_contract_def, rule_format, OF vd vs ok']
    obtain h' where r: "invert_Fn h d s = (h', Return ())"
      "frame h h' (s_arr d) (s_off d) (s_off d + s_len d)"
      "slice_bytes h' d = map (\<lambda>v. 255 - v) (slice_bytes h s)"
      by blast
    have "length (slice_bytes h s) = n * 3"
      using length_slice_bytes [OF vs] ok by simp
    then have "pixel_map 3 (map (\<lambda>v. 255 - v)) n (slice_bytes h s)
        = map (\<lambda>v. 255 - v) (slice_bytes h s)"
      by (rule pixel_map_bytewise)
    then show "\<exists>h'. invert_Fn h d s = (h', Return ()) \<and>
        frame h h' (s_arr d) (s_off d) (s_off d + s_len d) \<and>
        slice_bytes h' d = pixel_map 3 (map (\<lambda>v. 255 - v)) n (slice_bytes h s)"
      using r by simp
  qed
qed

section \<open>A run of Process that returns\<close>

text \<open>
  What follows from the fact that a call of \<open>Process\<close> has returned without an error: the
  arguments were accepted, and no slice expression of the row loop was out of range.
\<close>

lemma bpp_bytes:
  "0 \<le> sint (quo (BitsPerPixel sh + 7) 8)" "sint (quo (BitsPerPixel sh + 7) 8) \<le> 4"
  "1 \<le> sint (BitsPerPixel sh) \<Longrightarrow>
     sint (quo (BitsPerPixel sh + 7) 8) \<le> sint (BitsPerPixel sh) \<and> 1 \<le> sint (quo (BitsPerPixel sh + 7) 8)"
  by (auto simp: BitsPerPixel_def quo_def split: if_splits)

lemma for_loop_Inr:
  "for_loop y endY body s = Inr r \<Longrightarrow> \<exists>k st. body k st = Inr r"
proof (induction y endY body s rule: for_loop.induct)
  case (1 y endY body s)
  show ?case
  proof (cases "y <s endY")
    case False
    with "1.prems" show ?thesis
      by (subst (asm) for_loop.simps) simp
  next
    case True
    show ?thesis
    proof (cases "body y s")
      case (Inl s')
      with True "1.prems" have "for_loop (y + 1) endY body s' = Inr r"
        by (subst (asm) for_loop.simps) simp
      with "1.IH" [OF True Inl] show ?thesis by blast
    next
      case (Inr r')
      with True "1.prems" have "r' = r"
        by (subst (asm) for_loop.simps) simp
      with Inr show ?thesis by blast
    qed
  qed
qed

lemma Process_row_Inr:
  assumes "Process_row fn src sd sbo rowBuf rbw d osw ibw x0w y0w x1w y st = Inr (h', n, Return (dd, e))"
  shows "e \<noteq> None"
  using assms
  by (auto simp: Process_row_def Let_def split: prod.splits option.splits sum.splits outcome.splits)

lemma ValidateProcessArgs_success:
  assumes "ValidateProcessArgs dst dd src roi = (out, sd, None)"
  shows "Validate (Dims_of src) = None" "\<exists>b. out = Some b \<and> sint (Stride dd * (case roi of Some r \<Rightarrow> Dy r | None \<Rightarrow> Height dd)) \<le> int (s_len b)"
    "dst \<noteq> None \<longrightarrow> out = dst"
  using assms
  by (auto simp: ValidateProcessArgs_def Let_def split: option.splits sum.splits if_splits)

lemma Process_success:
  assumes "Process f h dst src roi = (h', n, Return (dd, None))"
  shows "\<exists>fn. Fn f = Some fn" "Shape (Dims_of src) = In f"
    "\<exists>out sd. ValidateProcessArgs dst (Process_dstDims f src roi) src roi = (Some out, sd, None)"
    "0 \<le> sint (SizeRow (Dims_of src))" "dd = Process_dstDims f src roi"
proof -
  show fn: "\<exists>fn. Fn f = Some fn"
    using assms by (cases "Fn f") (simp_all add: Process_def)
  then obtain fn where f: "Fn f = Some fn" by blast
  show sh: "Shape (Dims_of src) = In f"
    using assms f by (auto simp: Process_def ShapeIO_def Let_def split: if_splits)
  obtain out sd e where vpa: "ValidateProcessArgs dst (Process_dstDims f src roi) src roi = (out, sd, e)"
    by (cases "ValidateProcessArgs dst (Process_dstDims f src roi) src roi") auto
  have e: "e = None"
    using assms f sh vpa by (cases e) (auto simp: Process_def ShapeIO_def Let_def)
  with ValidateProcessArgs_success(2) [of dst _ src roi out sd] vpa
  obtain b where "out = Some b" by blast
  with vpa e show "\<exists>out sd. ValidateProcessArgs dst (Process_dstDims f src roi) src roi = (Some out, sd, None)"
    by blast
  show "0 \<le> sint (SizeRow (Dims_of src))"
    using assms f sh vpa e
    by (auto simp: Process_def ShapeIO_def Let_def make_bytes_def split: if_splits)
  show "dd = Process_dstDims f src roi"
    using assms f sh vpa e
    by (auto simp: Process_def ShapeIO_def Let_def make_bytes_def
        split: if_splits sum.splits prod.splits dest!: for_loop_Inr Process_row_Inr)
qed


lemma loop_buffered_bounds:
  assumes run: "for_loop (of_nat y0) (of_nat y1)
        (Process_row fn src sd (Some sb) rowBuf rbw d osw ibw x0w y0w x1w) s0 = Inl s'"
    and rep: "Stride sd = of_nat S" "rbw = of_nat rb" "osw = of_nat os" "ibw = of_nat ib"
      "x0w = of_nat x0" "y0w = of_nat y0" "x1w = of_nat x1"
    and ord: "y0 \<le> y1" "x0 \<le> x1"
    and fit: "y1 < 2 ^ 63" "(y1 - 1) * S + rb < 2 ^ 63" "(y1 - y0) * os < 2 ^ 63" "x1 * ib < 2 ^ 63"
    and k: "y0 \<le> k" "k < y1"
  shows "k * S + rb \<le> s_cap sb \<and> (k - y0) * os + os \<le> s_cap d \<and> x1 * ib \<le> s_cap sb - k * S"
proof -
  let ?B = "\<lambda>j. j * S + rb \<le> s_cap sb \<and> (j - y0) * os + os \<le> s_cap d \<and> x1 * ib \<le> s_cap sb - j * S"
  let ?Inv = "\<lambda>(m :: nat) (st :: pstate). \<forall>j. y0 \<le> j \<and> j < m \<longrightarrow> ?B j"
  have st: "?Inv (Suc m) s1"
    if m: "y0 \<le> m" "m < y1" and inv: "?Inv m s"
      and b: "Process_row fn src sd (Some sb) rowBuf rbw d osw ibw x0w y0w x1w (of_nat m) s = Inl s1"
    for m s s1
  proof -
    obtain hm n where s: "s = (hm, n)" by (cases s)
    have f1: "m * S + rb < 2 ^ 63"
      using row_le_last [OF m(2), of S rb] fit(2) by linarith
    have f2: "(m - y0) * os + os < 2 ^ 63"
      using dst_row_le_last [OF m, of os] fit(3) by linarith
    have "?B m"
      using b unfolding s Process_row_buffered [OF rep m(1) ord(2) f1 f2 fit(4)]
      by (simp split: if_splits)
    with inv show ?thesis
      by (auto simp: less_Suc_eq)
  qed
  have "?Inv y1 s'"
    by (rule for_loop_partial [where Inv = ?Inv, OF run ord(1) fit(1) _ st]) auto
  with k show ?thesis by blast
qed

lemma loop_unbuffered_bounds:
  assumes run: "for_loop (of_nat y0) (of_nat y1)
        (Process_row fn src sd None rowBuf rbw d osw ibw x0w y0w x1w) s0 = Inl s'"
    and rep: "osw = of_nat os" "ibw = of_nat ib" "x0w = of_nat x0" "y0w = of_nat y0" "x1w = of_nat x1"
    and rb: "rowBuf = \<lparr>s_arr = ar, s_off = 0, s_len = rb, s_cap = rb\<rparr>"
    and ord: "y0 \<le> y1" "x0 \<le> x1"
    and fit: "y1 < 2 ^ 63" "(y1 - y0) * os < 2 ^ 63" "x1 * ib < 2 ^ 63"
    and k: "y0 \<le> k" "k < y1"
  shows "snd (ReadAt src rb (of_nat k * Stride sd)) = None \<and> (k - y0) * os + os \<le> s_cap d \<and> x1 * ib \<le> rb"
proof -
  let ?B = "\<lambda>j. snd (ReadAt src rb (of_nat j * Stride sd)) = None \<and> (j - y0) * os + os \<le> s_cap d \<and> x1 * ib \<le> rb"
  let ?Inv = "\<lambda>(m :: nat) (st :: pstate). \<forall>j. y0 \<le> j \<and> j < m \<longrightarrow> ?B j"
  have st: "?Inv (Suc m) s1"
    if m: "y0 \<le> m" "m < y1" and inv: "?Inv m s"
      and b: "Process_row fn src sd None rowBuf rbw d osw ibw x0w y0w x1w (of_nat m) s = Inl s1"
    for m s s1
  proof -
    obtain hm n where s: "s = (hm, n)" by (cases s)
    obtain data err where r: "ReadAt src rb (of_nat m * Stride sd) = (data, err)"
      by (cases "ReadAt src rb (of_nat m * Stride sd)")
    have f2: "(m - y0) * os + os < 2 ^ 63"
      using dst_row_le_last [OF m, of os] fit(2) by linarith
    have "?B m"
      using b unfolding s Process_row_unbuffered [OF rep rb m(1) ord(2) f2 fit(3) r]
      by (simp add: r split: if_splits option.splits)
    with inv show ?thesis
      by (auto simp: less_Suc_eq)
  qed
  have "?Inv y1 s'"
    by (rule for_loop_partial [where Inv = ?Inv, OF run ord(1) fit(1) _ st]) auto
  with k show ?thesis by blast
qed

section \<open>PointFilter.Process: a region of interest\<close>

text \<open>
  A source without a buffer is read row by row with \<open>ReadAt\<close>. \<open>reads_fill_rows\<close> is the
  contract of \<open>io.ReaderAt\<close> for these reads: a read that reports no error has filled the
  whole row buffer.
\<close>

definition reads_fill_rows :: "Image \<Rightarrow> bool" where
  "reads_fill_rows src \<longleftrightarrow>
     (let d = Dims_of src; rb = nat (sint (SizeRow d))
      in \<forall>k < nat (sint (Height d)).
           snd (ReadAt src rb (of_nat k * Stride d)) = None \<longrightarrow>
           rb \<le> length (fst (ReadAt src rb (of_nat k * Stride d))))"

lemma ValidateProcessArgs_roi_ok:
  assumes "Validate (Dims_of src) = None"
    and "0 \<le>s X (Min_pt r)" "0 \<le>s Y (Min_pt r)" "X (Min_pt r) <s X (Max_pt r)"
      "Y (Min_pt r) <s Y (Max_pt r)" "X (Max_pt r) \<le>s Width (Dims_of src)"
      "Y (Max_pt r) \<le>s Height (Dims_of src)"
    and "sint (Stride dd * Dy r) \<le> int (s_len b)"
  shows "ValidateProcessArgs (Some b) dd src (Some r) = (Some b, Dims_of src, None)"
  using assms
  by (auto simp: ValidateProcessArgs_def Rect_Empty_def word_sle_eq word_sless_alt)

lemma Process_dstDims_whole:
  "Process_dstDims f src None =
     \<lparr>Width = Width (Dims_of src), Height = Height (Dims_of src),
      Stride = Width (Dims_of src) * quo (BitsPerPixel (Out f) + 7) 8, Shape = Out f\<rparr>"
  by (simp add: Process_dstDims_def ShapeIO_def Let_def)

lemma Process_dstDims_roi:
  "Process_dstDims f src (Some r) =
     \<lparr>Width = Dx r, Height = Dy r, Stride = Dx r * quo (BitsPerPixel (Out f) + 7) 8, Shape = Out f\<rparr>"
  by (simp add: Process_dstDims_def ShapeIO_def Let_def)

lemma take_drop_take:
  assumes "a + m \<le> n"
  shows "take m (drop a (take n xs)) = take m (drop a xs)"
  using assms by (simp add: drop_take min_def)

lemma src_pix_sub:
  assumes "x0 \<le> x1" "x1 \<le> W"
  shows "slice_bytes h (src_pix sb S ib x0 x1 k)
         = take ((x1 - x0) * ib) (drop (x0 * ib) (slice_bytes h (src_pix sb S ib 0 W k)))"
proof -
  have "x1 * ib \<le> W * ib" using assms(2) by (rule mult_le_mono1)
  moreover have "x0 * ib \<le> x1 * ib" using assms(1) by (rule mult_le_mono1)
  moreover have "(x1 - x0) * ib = x1 * ib - x0 * ib" by (rule diff_mult_distrib)
  ultimately have "x0 * ib + (x1 - x0) * ib \<le> W * ib" by linarith
  then show ?thesis
    by (simp add: slice_bytes_def src_pix_def take_drop_take add.commute add.left_commute)
qed


lemma sint_nonneg_of_nat:
  assumes "0 \<le> sint (w :: go_int)"
  shows "w = of_nat (nat (sint w))" "nat (sint w) < 2 ^ 63" "sint w = int (nat (sint w))"
  using assms of_nat_sint64 [OF assms] by simp_all

lemma roi_rows:
  assumes g: "\<And>p. length p = ib \<Longrightarrow> length (g p) = ob"
    and x: "x0 \<le> x1" "x1 \<le> W" and y: "y1 \<le> H"
    and A: "rows_done h dA osA (pixel_map ib g W) RA 0 H hA"
    and B: "rows_done h dB osB (pixel_map ib g (x1 - x0)) RB y0 y1 hB"
    and rel: "\<And>k. y0 \<le> k \<Longrightarrow> k < y1 \<Longrightarrow>
        RB k = take ((x1 - x0) * ib) (drop (x0 * ib) (RA k)) \<and> W * ib \<le> length (RA k)"
  shows "\<forall>j < y1 - y0. slice_bytes hB (dst_row dB osB j) =
           take ((x1 - x0) * ob) (drop (x0 * ob) (slice_bytes hA (dst_row dA osA (y0 + j))))"
proof (intro allI impI)
  fix j assume j: "j < y1 - y0"
  then have k: "y0 \<le> y0 + j" "y0 + j < y1" "y0 + j < H" using y by simp_all
  have "slice_bytes hB (dst_row dB osB (y0 + j - y0)) = pixel_map ib g (x1 - x0) (RB (y0 + j))"
    using B k unfolding rows_done_def by blast
  then have b: "slice_bytes hB (dst_row dB osB j) = pixel_map ib g (x1 - x0) (RB (y0 + j))"
    by simp
  have "slice_bytes hA (dst_row dA osA (y0 + j - 0)) = pixel_map ib g W (RA (y0 + j))"
    using A k unfolding rows_done_def by blast
  then have a: "slice_bytes hA (dst_row dA osA (y0 + j)) = pixel_map ib g W (RA (y0 + j))"
    by simp
  note r = rel [OF k(1,2)]
  show "slice_bytes hB (dst_row dB osB j) =
      take ((x1 - x0) * ob) (drop (x0 * ob) (slice_bytes hA (dst_row dA osA (y0 + j))))"
    unfolding a b using r pixel_map_sub [OF g x, where row = "RA (y0 + j)"] by simp
qed

text \<open>
  ROI consistency where every row of the source arrives. Let the callback of the filter be a
  pure per-pixel transform \<open>g\<close>, let the sizes of the source image fit the machine integer,
  let \<open>r\<close> be a non-empty rectangle within the image, let the two destinations be valid
  slices outside the source buffer, the one of the region call large enough for the region,
  and let a source without a buffer obey the contract of \<open>io.ReaderAt\<close>. If \<open>Process\<close> over
  the whole image returns without an error, then \<open>Process\<close> over \<open>r\<close> returns without an
  error too, reports the dimensions of the region, and row \<open>j\<close> of its output holds exactly
  the bytes of the pixels \<open>x0 .. x1 - 1\<close> of row \<open>y0 + j\<close> of the output of the whole image.
\<close>

theorem roi_consistent:
  fixes f :: PointFilter and src :: Image and r :: Rectangle
  defines "W \<equiv> nat (sint (Width (Dims_of src)))" and "H \<equiv> nat (sint (Height (Dims_of src)))"
    and "ib \<equiv> nat (sint (quo (BitsPerPixel (In f) + 7) 8))"
    and "ob \<equiv> nat (sint (quo (BitsPerPixel (Out f) + 7) 8))"
    and "x0 \<equiv> nat (sint (X (Min_pt r)))" and "y0 \<equiv> nat (sint (Y (Min_pt r)))"
    and "x1 \<equiv> nat (sint (X (Max_pt r)))" and "y1 \<equiv> nat (sint (Y (Max_pt r)))"
  assumes fn: "Fn f = Some fn" and pp: "per_pixel ib ob g fn"
    and fit: "fits_int (Dims_of src)" and fito: "H * (W * ob) < 2 ^ 63"
    and roi: "0 \<le>s X (Min_pt r)" "0 \<le>s Y (Min_pt r)" "X (Min_pt r) <s X (Max_pt r)"
      "Y (Min_pt r) <s Y (Max_pt r)" "X (Max_pt r) \<le>s Width (Dims_of src)"
      "Y (Max_pt r) \<le>s Height (Dims_of src)"
    and vA: "valid_slice h dA" and vB: "valid_slice h dB"
    and szB: "(y1 - y0) * ((x1 - x0) * ob) \<le> s_len dB"
    and srcok: "case Buffer src of
        Some (Some sb) \<Rightarrow> valid_slice h sb \<and> s_arr sb \<noteq> s_arr dA \<and> s_arr sb \<noteq> s_arr dB
      | _ \<Rightarrow> reads_fill_rows src"
    and whole: "Process f h (Some dA) src None = (hA, nA, Return (ddA, None))"
  shows "\<exists>hB. Process f h (Some dB) src (Some r) =
            (hB, y1 - y0,
             Return (\<lparr>Width = Dx r, Height = Dy r,
                       Stride = Dx r * quo (BitsPerPixel (Out f) + 7) 8, Shape = Out f\<rparr>, None)) \<and>
          (\<forall>j < y1 - y0.
             slice_bytes hB (dst_row dB ((x1 - x0) * ob) j) =
             take ((x1 - x0) * ob) (drop (x0 * ob) (slice_bytes hA (dst_row dA (W * ob) (y0 + j)))))"
proof -
  let ?d = "Dims_of src"
  let ?ibw = "quo (BitsPerPixel (In f) + 7) 8" and ?obw = "quo (BitsPerPixel (Out f) + 7) 8"
  define S where "S = nat (sint (Stride ?d))"
  define b where "b = nat (sint (BitsPerPixel (Shape ?d)))"
  define rb where "rb = (W * b + 7) div 8"
  note ps = Process_success [OF whole]
  have sh: "Shape ?d = In f" by (rule ps(2))
  from ps(3) obtain outA sdA where
    vpaA: "ValidateProcessArgs (Some dA) (Process_dstDims f src None) src None = (Some outA, sdA, None)"
    by blast
  have outA: "outA = dA"
    using ValidateProcessArgs_success(3) [OF vpaA] by simp
  have v: "Validate ?d = None"
    by (rule ValidateProcessArgs_success(1) [OF vpaA])
  note n = Validate_nat [OF v fit, folded W_def H_def S_def b_def, folded rb_def]
  have wW: "Width ?d = of_nat W" and hH: "Height ?d = of_nat H" and sS: "Stride ?d = of_nat S"
    and rbw: "SizeRow ?d = of_nat rb" and W0: "0 < W" and H0: "0 < H" and b1: "1 \<le> b"
    and rS: "rb \<le> S" and HS: "H * S < 2 ^ 63" and Wb: "W * b + 7 < 2 ^ 63"
    using n by simp_all
  have S0: "0 < S"
  proof -
    have "1 \<le> W * b" using W0 b1 by (simp add: Suc_leI)
    then have "1 \<le> rb" unfolding rb_def by arith
    then show ?thesis using rS by simp
  qed
  have H63: "H < 2 ^ 63" using le_mult_pos [OF S0, of H] HS by linarith
  have last: "(H - 1) * S + rb \<le> H * S"
    using pred_mult_add [OF H0, of S] rS by linarith
  have rb63: "rb < 2 ^ 63" using last HS by linarith
  have nrb: "nat (sint (SizeRow ?d)) = rb"
    unfolding rbw using rb63 by (simp only: sint_of_nat64 nat_int)
  have srb0: "0 \<le> sint (SizeRow ?d)"
    unfolding rbw using rb63 by (simp add: sint_of_nat64)
  \<comment> \<open>bytes per pixel\<close>
  have bin: "1 \<le> sint (BitsPerPixel (In f))"
    using v by (simp add: Validate_None_iff word_sle_eq sh)
  have ibw: "?ibw = of_nat ib"
    unfolding ib_def by (rule sint_nonneg_of_nat(1) [OF bpp_bytes(1)])
  have obw: "?obw = of_nat ob"
    unfolding ob_def by (rule sint_nonneg_of_nat(1) [OF bpp_bytes(1)])
  have ibb: "ib \<le> b"
    using bpp_bytes(3) [OF bin] unfolding ib_def b_def sh by linarith
  have Wib: "W * ib < 2 ^ 63"
  proof -
    have "W * ib \<le> W * b" using ibb by (rule mult_le_mono2)
    then show ?thesis using Wb by linarith
  qed
  \<comment> \<open>the region\<close>
  have x0w: "X (Min_pt r) = of_nat x0" and y0w: "Y (Min_pt r) = of_nat y0"
    unfolding x0_def y0_def using roi(1,2)
    by (auto intro!: sint_nonneg_of_nat(1) simp: word_sle_eq)
  have sx1: "0 \<le> sint (X (Max_pt r))" and sy1: "0 \<le> sint (Y (Max_pt r))"
    using roi(1-4) by (simp_all add: word_sle_eq word_sless_alt)
  have x1w: "X (Max_pt r) = of_nat x1" and y1w: "Y (Max_pt r) = of_nat y1"
    unfolding x1_def y1_def using sx1 sy1 by (auto intro!: sint_nonneg_of_nat(1))
  have x01: "x0 < x1" and y01: "y0 < y1" and x1W: "x1 \<le> W" and y1H: "y1 \<le> H"
    using roi sx1 sy1 unfolding x0_def x1_def y0_def y1_def W_def H_def
    by (simp_all add: word_sle_eq word_sless_alt nat_less_iff nat_le_iff)
  have dx: "Dx r = of_nat (x1 - x0)" and dy: "Dy r = of_nat (y1 - y0)"
    using x01 y01 by (simp_all add: Dx_def Dy_def x0w x1w y0w y1w)
  let ?osA = "W * ob" and ?osB = "(x1 - x0) * ob"
  have sA: "Stride (Process_dstDims f src None) = of_nat ?osA"
    by (simp add: Process_dstDims_whole wW obw)
  have sB: "Stride (Process_dstDims f src (Some r)) = of_nat ?osB"
    by (simp add: Process_dstDims_roi dx obw)
  have z: "(0 :: go_int) = of_nat 0" by simp
  have capB: "(y1 - y0) * ?osB \<le> s_cap dB" and cB63: "s_cap dB < 2 ^ 63"
    using szB vB by (simp_all add: valid_slice_def)
  have cA63: "s_cap dA < 2 ^ 63" using vA by (simp add: valid_slice_def)
  have vpaB: "ValidateProcessArgs (Some dB) (Process_dstDims f src (Some r)) src (Some r)
      = (Some dB, ?d, None)"
  proof (rule ValidateProcessArgs_roi_ok [OF v roi])
    have "Stride (Process_dstDims f src (Some r)) * Dy r = of_nat ((y1 - y0) * ?osB)"
      by (simp add: sB dy)
    moreover have "(y1 - y0) * ?osB < 2 ^ 63" using capB cB63 by linarith
    ultimately have "sint (Stride (Process_dstDims f src (Some r)) * Dy r) = int ((y1 - y0) * ?osB)"
      by (simp only: sint_of_nat64)
    then show "sint (Stride (Process_dstDims f src (Some r)) * Dy r) \<le> int (s_len dB)"
      using szB by (simp only: of_nat_le_iff)
  qed
  let ?h0 = "h @ [replicate rb 0]"
  let ?rowBuf = "\<lparr>s_arr = length h, s_off = 0, s_len = rb, s_cap = rb\<rparr>"
  note runA = Process_whole [OF fn sh vpaA srb0, of h, unfolded nrb outA]
  note runB = Process_roi [OF fn sh vpaB srb0, of h, unfolded nrb]
  let ?bodyA = "Process_row fn src ?d (case Buffer src of Some b \<Rightarrow> b | None \<Rightarrow> None) ?rowBuf
      (SizeRow ?d) dA (Stride (Process_dstDims f src None)) ?ibw 0 0 (Width ?d)"
  have loopA: "for_loop (of_nat 0) (of_nat H) ?bodyA (?h0, 0) = Inl (hA, nA)"
    using whole unfolding runA hH
    by (auto split: sum.splits dest!: for_loop_Inr Process_row_Inr)
  from pp have glen: "\<And>p. length p = ib \<Longrightarrow> length (g p) = ob"
    and cW: "row_contract fn (pixel_map ib g W)
        (\<lambda>d s. s_arr d \<noteq> s_arr s \<and> s_len s = W * ib \<and> s_len d = W * ob)"
    and cX: "row_contract fn (pixel_map ib g (x1 - x0))
        (\<lambda>d s. s_arr d \<noteq> s_arr s \<and> s_len s = (x1 - x0) * ib \<and> s_len d = (x1 - x0) * ob)"
    by (simp_all add: per_pixel_def)
  have fitA: "(H - 0) * ?osA < 2 ^ 63" using fito by simp
  have initA: "frame h ?h0 (s_arr dA) (s_off dA) (s_off dA)"
    and initB: "frame h ?h0 (s_arr dB) (s_off dB) (s_off dB)"
    by (rule frame_append)+
  show ?thesis
  proof (cases "\<exists>sb. Buffer src = Some (Some sb)")
    case True
    then obtain sb where bs: "Buffer src = Some (Some sb)" by blast
    have vs: "valid_slice h sb" and neA: "s_arr sb \<noteq> s_arr dA" and neB: "s_arr sb \<noteq> s_arr dB"
      using srcok by (simp_all add: bs)
    have cs63: "s_cap sb < 2 ^ 63" using vs by (simp add: valid_slice_def)
    have lA: "for_loop (of_nat 0) (of_nat H)
        (Process_row fn src ?d (Some sb) ?rowBuf (SizeRow ?d) dA (Stride (Process_dstDims f src None))
           ?ibw 0 0 (Width ?d)) (?h0, 0) = Inl (hA, nA)"
      using loopA by (simp add: bs)
    have fl: "(H - 1) * S + rb < 2 ^ 63" using last HS by linarith
    have bnd: "k * S + rb \<le> s_cap sb \<and> (k - 0) * ?osA + ?osA \<le> s_cap dA \<and> W * ib \<le> s_cap sb - k * S"
      if "k < H" for k
      by (rule loop_buffered_bounds [OF lA sS rbw sA ibw z z wW _ _ H63 fl fitA Wib _ that]) simp_all
    have S1: "k * S \<le> (H - 1) * S" if "k < H" for k
      using that by (intro mult_le_mono1) simp
    have x1ib: "x1 * ib \<le> W * ib" using x1W by (rule mult_le_mono1)
    have "\<exists>h'. for_loop (of_nat 0) (of_nat H)
          (Process_row fn src ?d (Some sb) ?rowBuf (SizeRow ?d) dA
             (Stride (Process_dstDims f src None)) ?ibw 0 0 (Width ?d)) (?h0, 0)
          = Inl (h', H - 0) \<and>
        rows_done h dA ?osA (pixel_map ib g W) (\<lambda>j. slice_bytes h (src_pix sb S ib 0 W j)) 0 H h'"
    proof (rule loop_buffered [OF cW sS rbw sA ibw z z wW _ _ H63 cs63 cA63 _ _ _ vA vs _ _ initA])
      show "0 \<le> H" "0 \<le> W" by simp_all
      show "(H - 1) * S + rb \<le> s_cap sb" using bnd [of "H - 1"] H0 by simp
      show "(H - 0) * ?osA \<le> s_cap dA"
        using bnd [of "H - 1"] H0 pred_mult_add [OF H0, of ?osA] by simp
      show "(H - 1) * S + W * ib \<le> s_cap sb" using bnd [of "H - 1"] H0 by linarith
      show "s_arr (dst_row dA ?osA (k - 0)) \<noteq> s_arr (src_pix sb S ib 0 W k) \<and>
          s_len (src_pix sb S ib 0 W k) = W * ib \<and> s_len (dst_row dA ?osA (k - 0)) = W * ob" for k
        using neA by (simp add: dst_row_def src_pix_def)
      show "s_arr sb \<noteq> s_arr dA \<or> s_off dA + (k - 0) * ?osA \<le> s_off sb + k * S + 0 * ib" for k
        using neA by simp
    qed
    then have doneA: "rows_done h dA ?osA (pixel_map ib g W)
        (\<lambda>j. slice_bytes h (src_pix sb S ib 0 W j)) 0 H hA"
      using lA by auto
    have y11: "y1 - 1 < H" using y01 y1H by simp
    have "\<exists>h'. for_loop (of_nat y0) (of_nat y1)
          (Process_row fn src ?d (Some sb) ?rowBuf (SizeRow ?d) dB
             (Stride (Process_dstDims f src (Some r))) ?ibw (X (Min_pt r)) (Y (Min_pt r))
             (X (Max_pt r))) (?h0, 0)
          = Inl (h', y1 - y0) \<and>
        rows_done h dB ?osB (pixel_map ib g (x1 - x0))
          (\<lambda>j. slice_bytes h (src_pix sb S ib x0 x1 j)) y0 y1 h'"
    proof (rule loop_buffered [OF cX sS rbw sB ibw x0w y0w x1w _ _ _ cs63 cB63 _ capB _ vB vs _ _ initB])
      show "y0 \<le> y1" "x0 \<le> x1" using x01 y01 by simp_all
      show "y1 < 2 ^ 63" using y1H H63 by simp
      show "(y1 - 1) * S + rb \<le> s_cap sb" using bnd [OF y11] by simp
      show "(y1 - 1) * S + x1 * ib \<le> s_cap sb" using bnd [OF y11] x1ib by linarith
      show "s_arr (dst_row dB ?osB (k - y0)) \<noteq> s_arr (src_pix sb S ib x0 x1 k) \<and>
          s_len (src_pix sb S ib x0 x1 k) = (x1 - x0) * ib \<and>
          s_len (dst_row dB ?osB (k - y0)) = (x1 - x0) * ob" for k
        using neB by (simp add: dst_row_def src_pix_def)
      show "s_arr sb \<noteq> s_arr dB \<or> s_off dB + (k - y0) * ?osB \<le> s_off sb + k * S + x0 * ib" for k
        using neB by simp
    qed
    then obtain hB where lB: "for_loop (of_nat y0) (of_nat y1)
          (Process_row fn src ?d (Some sb) ?rowBuf (SizeRow ?d) dB
             (Stride (Process_dstDims f src (Some r))) ?ibw (X (Min_pt r)) (Y (Min_pt r))
             (X (Max_pt r))) (?h0, 0) = Inl (hB, y1 - y0)"
      and doneB: "rows_done h dB ?osB (pixel_map ib g (x1 - x0))
          (\<lambda>j. slice_bytes h (src_pix sb S ib x0 x1 j)) y0 y1 hB"
      by blast
    have resB: "Process f h (Some dB) src (Some r) =
        (hB, y1 - y0, Return (Process_dstDims f src (Some r), None))"
      unfolding runB using lB by (simp add: bs y0w y1w)
    have rel: "slice_bytes h (src_pix sb S ib x0 x1 k) =
          take ((x1 - x0) * ib) (drop (x0 * ib) (slice_bytes h (src_pix sb S ib 0 W k))) \<and>
        W * ib \<le> length (slice_bytes h (src_pix sb S ib 0 W k))"
      if "y0 \<le> k" "k < y1" for k
    proof -
      have kH: "k < H" using that y1H by simp
      have "k * S + W * ib \<le> s_cap sb" using bnd [OF kH] by linarith
      then have "valid_slice h (src_pix sb S ib 0 W k)"
        by (intro valid_src_pix [OF vs]) simp_all
      then have "length (slice_bytes h (src_pix sb S ib 0 W k)) = W * ib"
        by (simp add: length_slice_bytes src_pix_def)
      then show ?thesis using src_pix_sub [of x0 x1 W h sb S ib k] x01 x1W by simp
    qed
    have rows: "\<forall>j < y1 - y0. slice_bytes hB (dst_row dB ?osB j) =
        take ((x1 - x0) * ob) (drop (x0 * ob) (slice_bytes hA (dst_row dA ?osA (y0 + j))))"
      by (rule roi_rows [OF glen _ x1W y1H doneA doneB rel]) (use x01 in simp_all)
    show ?thesis
      by (intro exI [of _ hB] conjI rows) (simp add: resB Process_dstDims_roi)
  next
    case False
    then have nb: "(case Buffer src of Some b \<Rightarrow> b | None \<Rightarrow> None) = None"
      by (auto split: option.splits)
    have fill: "reads_fill_rows src"
      using srcok False by (auto split: option.splits)
    have lA: "for_loop (of_nat 0) (of_nat H)
        (Process_row fn src ?d None ?rowBuf (SizeRow ?d) dA (Stride (Process_dstDims f src None))
           ?ibw 0 0 (Width ?d)) (?h0, 0) = Inl (hA, nA)"
      using loopA by (simp add: nb)
    have bnd: "snd (ReadAt src rb (of_nat k * Stride ?d)) = None \<and>
        (k - 0) * ?osA + ?osA \<le> s_cap dA \<and> W * ib \<le> rb"
      if "k < H" for k
      by (rule loop_unbuffered_bounds [OF lA sA ibw z z wW refl _ _ H63 fitA Wib _ that]) simp_all
    have rd: "snd (ReadAt src rb (of_nat k * Stride ?d)) = None \<and>
        rb \<le> length (fst (ReadAt src rb (of_nat k * Stride ?d)))"
      if "k < H" for k
      using fill bnd [OF that] that
      unfolding reads_fill_rows_def Let_def nrb H_def [symmetric] by blast
    have Wrb: "W * ib \<le> rb" using bnd [OF H0] by simp
    have x1ib: "x1 * ib \<le> W * ib" using x1W by (rule mult_le_mono1)
    have vrow: "valid_slice ?h0 ?rowBuf"
      using rb63 by (simp add: valid_slice_def)
    have aA: "s_arr dA \<noteq> length h" and aB: "s_arr dB \<noteq> length h"
      using vA vB by (auto simp: valid_slice_def)
    let ?row = "\<lambda>k. fst (ReadAt src rb (of_nat k * Stride ?d))"
    have "\<exists>h'. for_loop (of_nat 0) (of_nat H)
          (Process_row fn src ?d None ?rowBuf (SizeRow ?d) dA
             (Stride (Process_dstDims f src None)) ?ibw 0 0 (Width ?d)) (?h0, 0)
          = Inl (h', H - 0) \<and>
        rows_done h dA ?osA (pixel_map ib g W)
          (\<lambda>j. take ((W - 0) * ib) (drop (0 * ib) (?row j))) 0 H h'"
    proof (rule loop_unbuffered [OF cW sA ibw z z wW refl _ _ _ H63 rb63 cA63 _ Wrb _ vA _ initA vrow])
      show "length h \<le> length h" "0 \<le> H" "0 \<le> W" by simp_all
      show "(H - 0) * ?osA \<le> s_cap dA"
        using bnd [of "H - 1"] H0 pred_mult_add [OF H0, of ?osA] by simp
      show "snd (ReadAt src rb (of_nat k * Stride ?d)) = None \<and>
          rb \<le> length (fst (ReadAt src rb (of_nat k * Stride ?d)))" if "k < H" for k
        by (rule rd [OF that])
      show "s_arr (dst_row dA ?osA (k - 0)) \<noteq> s_arr (src_pix ?rowBuf 0 ib 0 W k) \<and>
          s_len (src_pix ?rowBuf 0 ib 0 W k) = W * ib \<and> s_len (dst_row dA ?osA (k - 0)) = W * ob" for k
        using aA by (simp add: dst_row_def src_pix_def)
    qed
    then have doneA: "rows_done h dA ?osA (pixel_map ib g W)
        (\<lambda>j. take ((W - 0) * ib) (drop (0 * ib) (?row j))) 0 H hA"
      using lA by auto
    have "\<exists>h'. for_loop (of_nat y0) (of_nat y1)
          (Process_row fn src ?d None ?rowBuf (SizeRow ?d) dB
             (Stride (Process_dstDims f src (Some r))) ?ibw (X (Min_pt r)) (Y (Min_pt r))
             (X (Max_pt r))) (?h0, 0)
          = Inl (h', y1 - y0) \<and>
        rows_done h dB ?osB (pixel_map ib g (x1 - x0))
          (\<lambda>j. take ((x1 - x0) * ib) (drop (x0 * ib) (?row j))) y0 y1 h'"
    proof (rule loop_unbuffered [OF cX sB ibw x0w y0w x1w refl _ _ _ _ rb63 cB63 capB _ _ vB _ initB vrow])
      show "length h \<le> length h" "y0 \<le> y1" "x0 \<le> x1" using x01 y01 by simp_all
      show "y1 < 2 ^ 63" using y1H H63 by simp
      show "x1 * ib \<le> rb" using x1ib Wrb by linarith
      show "snd (ReadAt src rb (of_nat k * Stride ?d)) = None \<and>
          rb \<le> length (fst (ReadAt src rb (of_nat k * Stride ?d)))" if "k < y1" for k
        using that y1H by (intro rd) simp
      show "s_arr (dst_row dB ?osB (k - y0)) \<noteq> s_arr (src_pix ?rowBuf 0 ib x0 x1 k) \<and>
          s_len (src_pix ?rowBuf 0 ib x0 x1 k) = (x1 - x0) * ib \<and>
          s_len (dst_row dB ?osB (k - y0)) = (x1 - x0) * ob" for k
        using aB by (simp add: dst_row_def src_pix_def)
    qed
    then obtain hB where lB: "for_loop (of_nat y0) (of_nat y1)
          (Process_row fn src ?d None ?rowBuf (SizeRow ?d) dB
             (Stride (Process_dstDims f src (Some r))) ?ibw (X (Min_pt r)) (Y (Min_pt r))
             (X (Max_pt r))) (?h0, 0) = Inl (hB, y1 - y0)"
      and doneB: "rows_done h dB ?osB (pixel_map ib g (x1 - x0))
          (\<lambda>j. take ((x1 - x0) * ib) (drop (x0 * ib) (?row j))) y0 y1 hB"
      by blast
    have resB: "Process f h (Some dB) src (Some r) =
        (hB, y1 - y0, Return (Process_dstDims f src (Some r), None))"
      unfolding runB using lB by (simp add: nb y0w y1w)
    have rel: "take ((x1 - x0) * ib) (drop (x0 * ib) (?row k)) =
          take ((x1 - x0) * ib) (drop (x0 * ib) (take ((W - 0) * ib) (drop (0 * ib) (?row k)))) \<and>
        W * ib \<le> length (take ((W - 0) * ib) (drop (0 * ib) (?row k)))"
      if "y0 \<le> k" "k < y1" for k
    proof -
      have kH: "k < H" using that y1H by simp
      have len: "W * ib \<le> length (?row k)" using rd [OF kH] Wrb by linarith
      have "x0 * ib + (x1 - x0) * ib = x1 * ib"
        using x01 by (simp add: add_mult_distrib [symmetric])
      then have "x0 * ib + (x1 - x0) * ib \<le> W * ib" using x1ib by simp
      then show ?thesis using len by (simp add: take_drop_take)
    qed
    have rows: "\<forall>j < y1 - y0. slice_bytes hB (dst_row dB ?osB j) =
        take ((x1 - x0) * ob) (drop (x0 * ob) (slice_bytes hA (dst_row dA ?osA (y0 + j))))"
      by (rule roi_rows [OF glen _ x1W y1H doneA doneB rel]) (use x01 in simp_all)
    show ?thesis
      by (intro exI [of _ hB] conjI rows) (simp add: resB Process_dstDims_roi)
  qed
qed

theorem roi_consistent_witness:
  "\<exists>hB.
     Process NewInvertedPerPixel
       [[1, 2, 3, 4, 5, 6, 7, 8, 9, 10, 11, 12], replicate 12 0, replicate 6 0]
       (Some \<lparr>s_arr = 2, s_off = 0, s_len = 6, s_cap = 6\<rparr>)
       \<lparr>Dims_of = \<lparr>Width = 2, Height = 2, Stride = 6, Shape = ShapeRGB888\<rparr>,
         ReadAt = (\<lambda>n off. ([], None)),
         Buffer = Some (Some \<lparr>s_arr = 0, s_off = 0, s_len = 12, s_cap = 12\<rparr>)\<rparr>
       (Some \<lparr>Min_pt = \<lparr>X = 1, Y = 0\<rparr>, Max_pt = \<lparr>X = 2, Y = 2\<rparr>\<rparr>)
       = (hB, 2, Return (\<lparr>Width = 1, Height = 2, Stride = 3, Shape = ShapeRGB888\<rparr>, None)) \<and>
     slice_bytes hB \<lparr>s_arr = 2, s_off = 0, s_len = 6, s_cap = 6\<rparr> = [251, 250, 249, 245, 244, 243]"
proof -
  let ?h = "[[1, 2, 3, 4, 5, 6, 7, 8, 9, 10, 11, 12 :: byte], replicate 12 0, replicate 6 0]"
  let ?hA = "[[1, 2, 3, 4, 5, 6, 7, 8, 9, 10, 11, 12 :: byte],
      [254, 253, 252, 251, 250, 249, 248, 247, 246, 245, 244, 243], replicate 6 0, replicate 6 0]"
  let ?sb = "\<lparr>s_arr = 0, s_off = 0, s_len = 12, s_cap = 12\<rparr>"
  let ?dA = "\<lparr>s_arr = 1, s_off = 0, s_len = 12, s_cap = 12\<rparr>"
  let ?dB = "\<lparr>s_arr = 2, s_off = 0, s_len = 6, s_cap = 6\<rparr>"
  let ?d = "\<lparr>Width = 2, Height = 2, Stride = 6, Shape = ShapeRGB888\<rparr>"
  let ?src = "\<lparr>Dims_of = ?d, ReadAt = (\<lambda>n off. ([], None)) :: nat \<Rightarrow> go_int \<Rightarrow> byte list \<times> error option,
      Buffer = Some (Some ?sb)\<rparr>"
  let ?r = "\<lparr>Min_pt = \<lparr>X = 1, Y = 0\<rparr>, Max_pt = \<lparr>X = 2, Y = 2 :: go_int\<rparr>\<rparr>"
  have fn: "Fn NewInvertedPerPixel = Some invert_Fn"
    by (simp add: NewInvertedPerPixel_def)
  have b: "nat (sint (quo (BitsPerPixel ShapeRGB888 + 7) 8)) = 3"
    by (simp add: BitsPerPixel_def Shape_defs quo_def)
  have pp: "per_pixel (nat (sint (quo (BitsPerPixel (In NewInvertedPerPixel) + 7) 8)))
      (nat (sint (quo (BitsPerPixel (Out NewInvertedPerPixel) + 7) 8)))
      (map (\<lambda>v. 255 - v)) invert_Fn"
    by (simp add: NewInvertedPerPixel_def b invert_per_pixel)
  have fit: "fits_int (Dims_of ?src)"
    by (simp add: fits_int_def BitsPerPixel_def Shape_defs)
  have vA: "valid_slice ?h ?dA" and vB: "valid_slice ?h ?dB" and vs: "valid_slice ?h ?sb"
    by (simp_all add: valid_slice_def)
  have whole: "Process NewInvertedPerPixel ?h (Some ?dA) ?src None = (?hA, 2, Return (?d, None))"
    by code_simp
  from roi_consistent [where r = ?r, OF fn pp fit _ _ _ _ _ _ _ vA vB _ _ whole]
  obtain hB where
    run: "Process NewInvertedPerPixel ?h (Some ?dB) ?src (Some ?r)
        = (hB, 2, Return (\<lparr>Width = 1, Height = 2, Stride = 3, Shape = ShapeRGB888\<rparr>, None))"
    and rows: "\<forall>j < 2. slice_bytes hB (dst_row ?dB 3 j) = take 3 (drop 3 (slice_bytes ?hA (dst_row ?dA 6 j)))"
    by (auto simp: NewInvertedPerPixel_def b vs word_sle_eq word_sless_alt Dx_def Dy_def
        BitsPerPixel_def Shape_defs quo_def)
  have r0: "slice_bytes hB (dst_row ?dB 3 0) = [251, 250, 249]"
    and r1: "slice_bytes hB (dst_row ?dB 3 1) = [245, 244, 243]"
    using rows [rule_format, of 0] rows [rule_format, of 1]
    by (simp_all add: slice_bytes_def dst_row_def)
  have "slice_bytes hB ?dB = slice_bytes hB (dst_row ?dB 3 0) @ slice_bytes hB (dst_row ?dB 3 1)"
    by (simp add: slice_bytes_def dst_row_def take_add [symmetric])
  then show ?thesis using run r0 r1 by simp
qed

text \<open>
  C4. The output of \<open>Process\<close> over a region equals the matching region of the output of
  \<open>Process\<close> over the whole image. The code breaks this for a source without a buffer
  whose read of a row stores fewer bytes than the row and reports no error: \<open>Process\<close>
  drops the count of \<open>ReadAt\<close> and runs the callback on what the scratch row held before.
  For a 1 by 2 RGB888 image whose first row reads \<open>10, 20, 30\<close> and whose second row reads
  nothing, the call over the whole image inverts the first row a second time (row 1 of its
  output is \<open>245, 235, 225\<close>), while the call over the region that is row 1 inverts the
  zeroed scratch row (its output is \<open>255, 255, 255\<close>). Both calls return without an error.
\<close>

theorem Process_roi_short_read_differs:
  "Process NewInvertedPerPixel [replicate 6 0, replicate 3 0]
     (Some \<lparr>s_arr = 0, s_off = 0, s_len = 6, s_cap = 6\<rparr>)
     \<lparr>Dims_of = \<lparr>Width = 1, Height = 2, Stride = 3, Shape = ShapeRGB888\<rparr>,
       ReadAt = (\<lambda>n off. if off = 0 then ([10, 20, 30], None) else ([], None)),
       Buffer = None\<rparr> None
     = ([[245, 235, 225, 245, 235, 225], [0, 0, 0], [10, 20, 30]], 2,
        Return (\<lparr>Width = 1, Height = 2, Stride = 3, Shape = ShapeRGB888\<rparr>, None))
   \<and> Process NewInvertedPerPixel [replicate 6 0, replicate 3 0]
     (Some \<lparr>s_arr = 1, s_off = 0, s_len = 3, s_cap = 3\<rparr>)
     \<lparr>Dims_of = \<lparr>Width = 1, Height = 2, Stride = 3, Shape = ShapeRGB888\<rparr>,
       ReadAt = (\<lambda>n off. if off = 0 then ([10, 20, 30], None) else ([], None)),
       Buffer = None\<rparr>
     (Some \<lparr>Min_pt = \<lparr>X = 0, Y = 1\<rparr>, Max_pt = \<lparr>X = 1, Y = 2\<rparr>\<rparr>)
     = ([[0, 0, 0, 0, 0, 0], [255, 255, 255], [0, 0, 0]], 1,
        Return (\<lparr>Width = 1, Height = 1, Stride = 3, Shape = ShapeRGB888\<rparr>, None))
   \<and> slice_bytes [[245, 235, 225, 245, 235, 225], [0, 0, 0], [10, 20, 30]]
       (dst_row \<lparr>s_arr = 0, s_off = 0, s_len = 6, s_cap = 6\<rparr> 3 1) = [245, 235, 225]
   \<and> slice_bytes [[0, 0, 0, 0, 0, 0], [255, 255, 255], [0, 0, 0]]
       (dst_row \<lparr>s_arr = 1, s_off = 0, s_len = 3, s_cap = 3\<rparr> 3 0) = [255, 255, 255]
   \<and> [255, 255, 255] \<noteq> [245, 235, 225 :: byte]"
  by code_simp

section \<open>PointFilter.Process: errors before the row loop\<close>

text \<open>
  C10. When \<open>Process\<close> fails in the nil-transform check, in the input-shape check or in
  \<open>ValidateProcessArgs\<close>, it returns the zero \<open>Dims\<close> with an error, the store is the
  one the call started in (so no byte of the destination buffer has changed), and \<open>Fn\<close>
  has not been called.
\<close>

theorem Process_early_error:
  assumes "Fn f = None \<or> Shape (Dims_of src) \<noteq> In f \<or>
           snd (snd (ValidateProcessArgs dst (Process_dstDims f src roi) src roi)) \<noteq> None"
  shows "\<exists>e. Process f h dst src roi = (h, 0, Return (zeroDims, Some e))"
proof (cases "Fn f")
  case None
  then show ?thesis
    by (simp add: Process_def)
next
  case (Some fn)
  show ?thesis
  proof (cases "Shape (Dims_of src) \<noteq> In f")
    case True
    with Some show ?thesis
      by (simp add: Process_def ShapeIO_def)
  next
    case False
    with Some assms obtain d sd e
      where "ValidateProcessArgs dst (Process_dstDims f src roi) src roi = (d, sd, Some e)"
      by (cases "ValidateProcessArgs dst (Process_dstDims f src roi) src roi") auto
    with Some False show ?thesis
      by (simp add: Process_def ShapeIO_def Let_def)
  qed
qed

theorem Process_early_error_witness:
  "Process NewInvertedPerPixel [[1, 2, 3, 4, 5, 6], [7, 7, 7]]
      (Some \<lparr>s_arr = 1, s_off = 0, s_len = 3, s_cap = 3\<rparr>)
      \<lparr>Dims_of = \<lparr>Width = 2, Height = 1, Stride = 6, Shape = ShapeRGB888\<rparr>,
        ReadAt = (\<lambda>n off. ([], None)),
        Buffer = Some (Some \<lparr>s_arr = 0, s_off = 0, s_len = 6, s_cap = 6\<rparr>)\<rparr>
      None
   = ([[1, 2, 3, 4, 5, 6], [7, 7, 7]], 0, Return (zeroDims, Some ErrDstTooSmall))"
proof -
  have "snd (snd (ValidateProcessArgs (Some \<lparr>s_arr = 1, s_off = 0, s_len = 3, s_cap = 3\<rparr>)
      (Process_dstDims NewInvertedPerPixel
         \<lparr>Dims_of = \<lparr>Width = 2, Height = 1, Stride = 6, Shape = ShapeRGB888\<rparr>,
           ReadAt = (\<lambda>n off. ([], None)),
           Buffer = Some (Some \<lparr>s_arr = 0, s_off = 0, s_len = 6, s_cap = 6\<rparr>)\<rparr> None)
      \<lparr>Dims_of = \<lparr>Width = 2, Height = 1, Stride = 6, Shape = ShapeRGB888\<rparr>,
        ReadAt = (\<lambda>n off. ([], None)),
        Buffer = Some (Some \<lparr>s_arr = 0, s_off = 0, s_len = 6, s_cap = 6\<rparr>)\<rparr>
      None)) \<noteq> None"
    by code_simp
  from Process_early_error [OF disjI2 [OF disjI2 [OF this]], of "[[1, 2, 3, 4, 5, 6], [7, 7, 7]]"]
  obtain e where r: "Process NewInvertedPerPixel [[1, 2, 3, 4, 5, 6], [7, 7, 7]]
      (Some \<lparr>s_arr = 1, s_off = 0, s_len = 3, s_cap = 3\<rparr>)
      \<lparr>Dims_of = \<lparr>Width = 2, Height = 1, Stride = 6, Shape = ShapeRGB888\<rparr>,
        ReadAt = (\<lambda>n off. ([], None)),
        Buffer = Some (Some \<lparr>s_arr = 0, s_off = 0, s_len = 6, s_cap = 6\<rparr>)\<rparr>
      None = ([[1, 2, 3, 4, 5, 6], [7, 7, 7]], 0, Return (zeroDims, Some e))"
    by blast
  have "snd (snd (Process NewInvertedPerPixel [[1, 2, 3, 4, 5, 6], [7, 7, 7]]
      (Some \<lparr>s_arr = 1, s_off = 0, s_len = 3, s_cap = 3\<rparr>)
      \<lparr>Dims_of = \<lparr>Width = 2, Height = 1, Stride = 6, Shape = ShapeRGB888\<rparr>,
        ReadAt = (\<lambda>n off. ([], None)),
        Buffer = Some (Some \<lparr>s_arr = 0, s_off = 0, s_len = 6, s_cap = 6\<rparr>)\<rparr>
      None)) = Return (zeroDims, Some ErrDstTooSmall)"
    by code_simp
  with r show ?thesis
    by simp
qed

section \<open>PointFilter.Process: a short read\<close>

text \<open>
  C7 fails on the code. The source below is not buffered and its \<open>ReadAt\<close> stores no byte
  and returns no error, a short read of 0 of the 3 bytes of the row. \<open>Process\<close> discards
  the count, sees a nil error, calls \<open>Fn\<close> on the zeroed scratch buffer and returns the output
  \<open>Dims\<close> without error: the destination holds the inverted zeroes. \<open>ImageRow\<close> in
  \<open>pix.go\<close> does compare the count with the row size.
\<close>

theorem Process_short_read_accepted:
  "fst (ReadAt \<lparr>Dims_of = \<lparr>Width = 1, Height = 1, Stride = 3, Shape = ShapeRGB888\<rparr>,
                 ReadAt = (\<lambda>n off. ([], None)), Buffer = None\<rparr> 3 0) = []
   \<and> Process NewInvertedPerPixel [[9, 9, 9]]
      (Some \<lparr>s_arr = 0, s_off = 0, s_len = 3, s_cap = 3\<rparr>)
      \<lparr>Dims_of = \<lparr>Width = 1, Height = 1, Stride = 3, Shape = ShapeRGB888\<rparr>,
        ReadAt = (\<lambda>n off. ([], None)), Buffer = None\<rparr>
      None
   = ([[255, 255, 255], [0, 0, 0]], 1,
      Return (\<lparr>Width = 1, Height = 1, Stride = 3, Shape = ShapeRGB888\<rparr>, None))"
  by code_simp

section \<open>PointFilter.Process: slice bounds\<close>

text \<open>
  C6 fails on the code. A 2 by 1 RGB444BE image (12 bits per pixel) has rows of
  \<open>(2 * 12 + 7) / 8 = 3\<close> bytes; with stride 3 and a buffer of exactly 3 bytes its Dims
  validate and the backing has the total readable size. \<open>Process\<close> takes
  \<open>(12 + 7) / 8 = 2\<close> bytes per pixel, slices the 3-byte row as \<open>srcRow[0:4]\<close>, beyond its
  capacity, and panics before \<open>Fn\<close> is called.
\<close>

theorem Process_RGB444BE_panics:
  "Validate \<lparr>Width = 2, Height = 1, Stride = 3, Shape = ShapeRGB444BE\<rparr> = None
   \<and> Size \<lparr>Width = 2, Height = 1, Stride = 3, Shape = ShapeRGB444BE\<rparr> = 3
   \<and> Process \<lparr>In = ShapeRGB444BE, Out = ShapeRGB444BE, Fn = Some invert_Fn\<rparr>
      [[1, 2, 3], [0, 0, 0, 0]]
      (Some \<lparr>s_arr = 1, s_off = 0, s_len = 4, s_cap = 4\<rparr>)
      \<lparr>Dims_of = \<lparr>Width = 2, Height = 1, Stride = 3, Shape = ShapeRGB444BE\<rparr>,
        ReadAt = (\<lambda>n off. ([], None)),
        Buffer = Some (Some \<lparr>s_arr = 0, s_off = 0, s_len = 3, s_cap = 3\<rparr>)\<rparr>
      None
   = ([[1, 2, 3], [0, 0, 0, 0], [0, 0, 0]], 0, Panic)"
  by code_simp

end
